theory Spec2Isabelle
  imports Main
begin

unbundle bit_operations_syntax

section \<open>Bloom-filter template protection of iris-codes: the model\<close>

text \<open>
  A shallow embedding of \<^verbatim>\<open>BF_extraction_iriscodes.py\<close>. The script is Python 2
  (its \<^verbatim>\<open>/\<close> on integers is used as a slice bound and as an array dimension),
  so \<^verbatim>\<open>/\<close> on integers is integer division here. A 2-D numpy array is the list
  of its rows; a list that is empty or ragged stands for the 1-D array that
  \<^verbatim>\<open>numpy.asarray\<close> builds from such data, on which every 2-D index raises.
\<close>

subsection \<open>Parameters of the Bloom filter extraction (lines 46-51)\<close>

definition N_BITS_BF :: nat where "N_BITS_BF = 10"
definition N_WORDS_BF :: nat where "N_WORDS_BF = 32"
definition N_BF_X :: nat where "N_BF_X = 512 div N_WORDS_BF"
definition N_BF_Y :: nat where "N_BF_Y = 20 div N_BITS_BF"
definition N_BLOCKS :: nat where "N_BLOCKS = N_BF_X * N_BF_Y"
definition BF_SIZE :: nat where "BF_SIZE = 2 ^ N_BITS_BF"

subsection \<open>Exceptions as values\<close>

datatype py_error =
    InvalidLiteral  \<comment> \<open>ValueError: invalid literal for int()\<close>
  | CannotReshape  \<comment> \<open>ValueError: total size of new array must be unchanged\<close>
  | TooManyIndices  \<comment> \<open>IndexError: too many indices for array\<close>
  | OutOfBounds int nat nat  \<comment> \<open>IndexError: index i is out of bounds for axis a with size n\<close>

definition bind_err :: "'e + 'a \<Rightarrow> ('a \<Rightarrow> 'e + 'b) \<Rightarrow> 'e + 'b" where
  "bind_err m f = (case m of Inl e \<Rightarrow> Inl e | Inr v \<Rightarrow> f v)"

subsection \<open>The numpy operations the script uses\<close>

definition is_2d :: "'a list list \<Rightarrow> bool" where
  "is_2d a = (a \<noteq> [] \<and> list_all (\<lambda>row. length row = length (hd a)) a)"

definition nrows :: "'a list list \<Rightarrow> nat" where
  "nrows a = length a"

definition ncols :: "'a list list \<Rightarrow> nat" where
  "ncols a = length (hd a)"

definition zeros :: "nat \<Rightarrow> nat \<Rightarrow> int list list" where
  "zeros n m = replicate n (replicate m 0)"

text \<open>An integer index on an axis of size \<open>n\<close>: negative indices count from the end.\<close>

definition norm_index :: "int \<Rightarrow> nat \<Rightarrow> nat \<Rightarrow> py_error + nat" where
  "norm_index i axis n =
     (if 0 \<le> i \<and> i < int n then Inr (nat i)
      else if - int n \<le> i \<and> i < 0 then Inr (nat (i + int n))
      else Inl (OutOfBounds i axis n))"

text \<open>\<^verbatim>\<open>a[r0:r1, c0:c1]\<close> with bounds that are not negative: slices clamp.\<close>

definition slice2 :: "'a list list \<Rightarrow> nat \<Rightarrow> nat \<Rightarrow> nat \<Rightarrow> nat \<Rightarrow> py_error + 'a list list" where
  "slice2 a r0 r1 c0 c1 =
     (if is_2d a
      then Inr (map (\<lambda>row. take (c1 - c0) (drop c0 row)) (take (r1 - r0) (drop r0 a)))
      else Inl TooManyIndices)"

text \<open>The number of columns of that slice (a slice with no row still has columns).\<close>

definition slice_ncols :: "'a list list \<Rightarrow> nat \<Rightarrow> nat \<Rightarrow> nat" where
  "slice_ncols a c0 c1 = min c1 (ncols a) - min c0 (ncols a)"

text \<open>\<^verbatim>\<open>numpy.reshape(a, [n, m])\<close> of a 2-D array, in row-major order.\<close>

definition reshape :: "'a list list \<Rightarrow> nat \<Rightarrow> nat \<Rightarrow> py_error + 'a list list" where
  "reshape a n m =
     (if length (concat a) = n * m
      then Inr (map (\<lambda>i. take m (drop (i * m) (concat a))) [0..<n])
      else Inl CannotReshape)"

text \<open>\<^verbatim>\<open>keyPERM[j, :]\<close>\<close>

definition key_row :: "int list list \<Rightarrow> nat \<Rightarrow> py_error + int list" where
  "key_row keyPERM j =
     (if \<not> is_2d keyPERM then Inl TooManyIndices
      else if j < length keyPERM then Inr (keyPERM ! j)
      else Inl (OutOfBounds (int j) 0 (length keyPERM)))"

text \<open>\<^verbatim>\<open>a[ks, :]\<close> with an integer array \<open>ks\<close>: row \<open>i\<close> of the result is row \<open>ks[i]\<close> of \<open>a\<close>.\<close>

fun take_rows :: "'a list list \<Rightarrow> int list \<Rightarrow> py_error + 'a list list" where
  "take_rows a [] = Inr []"
| "take_rows a (k # ks) =
     bind_err (norm_index k 0 (length a)) (\<lambda>j.
     bind_err (take_rows a ks) (\<lambda>rs. Inr (a ! j # rs)))"

text \<open>
  \<^verbatim>\<open>a[r0 : r0 + n, c0 : c0 + m] = blk\<close> for a block of shape \<open>(n, m)\<close>. The script
  assigns only where both reshapes before have succeeded, so the target slice has the
  block's shape.
\<close>

definition set_region :: "'a list list \<Rightarrow> nat \<Rightarrow> nat \<Rightarrow> 'a list list \<Rightarrow> 'a list list" where
  "set_region a r0 c0 blk =
     map (\<lambda>r. if r0 \<le> r \<and> r < r0 + length blk
              then take c0 (a ! r) @ blk ! (r - r0) @ drop (c0 + length (blk ! (r - r0))) (a ! r)
              else a ! r) [0..<length a]"

text \<open>\<^verbatim>\<open>a[:, w]\<close> on an array with \<open>nc\<close> columns.\<close>

definition get_column :: "'a list list \<Rightarrow> nat \<Rightarrow> nat \<Rightarrow> py_error + 'a list" where
  "get_column a nc w =
     (if w < nc then Inr (map (\<lambda>row. row ! w) a) else Inl (OutOfBounds (int w) 1 nc))"

text \<open>\<^verbatim>\<open>bf[i] = v\<close>\<close>

definition set_item :: "int list \<Rightarrow> int \<Rightarrow> int \<Rightarrow> py_error + int list" where
  "set_item bf i v = bind_err (norm_index i 0 (length bf)) (\<lambda>j. Inr (bf[j := v]))"

subsection \<open>Strings: \<^verbatim>\<open>str\<close> of an integer and \<^verbatim>\<open>int(s, 2)\<close>\<close>

definition digit_char :: "nat \<Rightarrow> char" where
  "digit_char d = ''0123456789'' ! d"

function str_nat :: "nat \<Rightarrow> string" where
  "str_nat n = (if n < 10 then [digit_char n] else str_nat (n div 10) @ [digit_char (n mod 10)])"
  by pat_completeness auto
termination
  by (relation "measure (\<lambda>n. n)") auto

definition py_str :: "int \<Rightarrow> string" where
  "py_str i = (if i < 0 then CHR ''-'' # str_nat (nat (- i)) else str_nat (nat i))"

definition is_bin_digit :: "char \<Rightarrow> bool" where
  "is_bin_digit c = (c = CHR ''0'' \<or> c = CHR ''1'')"

definition bin_value :: "string \<Rightarrow> int" where
  "bin_value s = foldl (\<lambda>acc c. 2 * acc + (if c = CHR ''1'' then 1 else 0)) 0 s"

text \<open>
  \<^verbatim>\<open>int(s, 2)\<close> on a string without sign, blank or underscore: an optional prefix
  \<^verbatim>\<open>0b\<close>, then at least one binary digit. The script passes \<^verbatim>\<open>'0b'\<close> followed by
  the decimal forms of the column's entries, that is by digits and minus signs only.
\<close>

definition int_base2 :: "string \<Rightarrow> py_error + int" where
  "int_base2 s =
     (let body = (if take 2 s = ''0b'' \<or> take 2 s = ''0B'' then drop 2 s else s)
      in if body \<noteq> [] \<and> list_all is_bin_digit body then Inr (bin_value body)
         else Inl InvalidLiteral)"

text \<open>Line 93: \<^verbatim>\<open>int('0b' + ''.join([str(a) for a in hist]), 2)\<close>\<close>

definition location_of :: "int list \<Rightarrow> py_error + int" where
  "location_of hist = int_base2 (''0b'' @ concat (map py_str hist))"

subsection \<open>\<^verbatim>\<open>add_unlinkability\<close> (lines 57-73)\<close>

text \<open>
  \<^verbatim>\<open>perm_feat\<close> takes its shape from the global \<^verbatim>\<open>feat\<close>, which is the array the script
  passes as \<^verbatim>\<open>features\<close>.
\<close>

definition add_unlinkability :: "int list list \<Rightarrow> int list list \<Rightarrow> py_error + int list list" where
  "add_unlinkability features keyPERM =
     (let perm_feat = zeros (nrows features) (ncols features);
          half = (N_BF_X div 2) * N_WORDS_BF;
          full = N_BF_X * N_WORDS_BF;
          groups = N_BITS_BF * N_BF_X div 2
      in
      bind_err (bind_err (slice2 features 0 N_BITS_BF 0 half)
                  (\<lambda>s. reshape s groups N_WORDS_BF)) (\<lambda>featsAux1.
      bind_err (bind_err (slice2 features 0 N_BITS_BF half full)
                  (\<lambda>s. reshape s groups N_WORDS_BF)) (\<lambda>featsAux2.
      bind_err (bind_err (slice2 features N_BITS_BF (2 * N_BITS_BF) 0 half)
                  (\<lambda>s. reshape s groups N_WORDS_BF)) (\<lambda>featsAux3.
      bind_err (bind_err (slice2 features N_BITS_BF (2 * N_BITS_BF) half full)
                  (\<lambda>s. reshape s groups N_WORDS_BF)) (\<lambda>featsAux4.
      bind_err (bind_err (bind_err (key_row keyPERM 0) (take_rows featsAux1))
                  (\<lambda>p. reshape p N_BITS_BF half)) (\<lambda>r1.
      bind_err (bind_err (bind_err (key_row keyPERM 2) (take_rows featsAux2))
                  (\<lambda>p. reshape p N_BITS_BF half)) (\<lambda>r2.
      bind_err (bind_err (bind_err (key_row keyPERM 2) (take_rows featsAux3))
                  (\<lambda>p. reshape p N_BITS_BF half)) (\<lambda>r3.
      bind_err (bind_err (bind_err (key_row keyPERM 3) (take_rows featsAux4))
                  (\<lambda>p. reshape p N_BITS_BF half)) (\<lambda>r4.
      Inr (set_region (set_region (set_region (set_region perm_feat
             0 0 r1) 0 half r2) N_BITS_BF 0 r3) N_BITS_BF half r4))))))))))"

subsection \<open>The two encoders (lines 76-99 and 101-125)\<close>

text \<open>
  The two functions differ in one statement, the insertion of a column's location into the
  Bloom filter; the loops around it are shared here, with the insertion as a parameter.
\<close>

text \<open>Line 94: \<^verbatim>\<open>bf[location] = int(1)\<close>\<close>

definition insert_location :: "int \<Rightarrow> int list \<Rightarrow> py_error + int list" where
  "insert_location location bf = set_item bf location 1"

text \<open>Lines 119-120: \<^verbatim>\<open>for k in keys: bf[location ^ k] = int(1)\<close>\<close>

fun insert_location_XOR :: "int list \<Rightarrow> int \<Rightarrow> int list \<Rightarrow> py_error + int list" where
  "insert_location_XOR [] location bf = Inr bf"
| "insert_location_XOR (k # keys) location bf =
     bind_err (set_item bf (location XOR k) 1) (insert_location_XOR keys location)"

text \<open>The loop over \<^verbatim>\<open>w in range(N_WORDS_BF)\<close>.\<close>

fun words_loop ::
  "(int \<Rightarrow> int list \<Rightarrow> py_error + int list) \<Rightarrow> int list list \<Rightarrow> nat \<Rightarrow> nat list \<Rightarrow> int list
   \<Rightarrow> py_error + int list" where
  "words_loop ins new_hists nc [] bf = Inr bf"
| "words_loop ins new_hists nc (w # ws) bf =
     bind_err (get_column new_hists nc w) (\<lambda>hist.
     bind_err (location_of hist) (\<lambda>location.
     bind_err (ins location bf) (words_loop ins new_hists nc ws)))"

text \<open>The body of the two outer loops, for the block at \<open>(x, y)\<close>.\<close>

definition encode_block ::
  "(int \<Rightarrow> int list \<Rightarrow> py_error + int list) \<Rightarrow> int list list \<Rightarrow> nat \<Rightarrow> nat \<Rightarrow> py_error + int list" where
  "encode_block ins feat x y =
     (let bf = replicate BF_SIZE 0;
          ini_x = x * N_WORDS_BF;
          fin_x = (x + 1) * N_WORDS_BF;
          ini_y = y * N_BITS_BF;
          fin_y = (y + 1) * N_BITS_BF
      in bind_err (slice2 feat ini_y fin_y ini_x fin_x) (\<lambda>new_hists.
         words_loop ins new_hists (slice_ncols feat ini_x fin_x) [0..<N_WORDS_BF] bf))"

text \<open>
  The loops over \<open>x\<close> (outer) and \<open>y\<close> (inner), with \<^verbatim>\<open>template[index, :] = bf\<close> and
  \<^verbatim>\<open>index += 1\<close>.
\<close>

fun blocks_loop ::
  "(nat \<Rightarrow> nat \<Rightarrow> py_error + int list) \<Rightarrow> (nat \<times> nat) list \<Rightarrow> nat \<Rightarrow> int list list
   \<Rightarrow> py_error + int list list" where
  "blocks_loop enc [] index template = Inr template"
| "blocks_loop enc ((x, y) # rest) index template =
     bind_err (enc x y) (\<lambda>bf. blocks_loop enc rest (index + 1) (template[index := bf]))"

definition extract_with ::
  "(int \<Rightarrow> int list \<Rightarrow> py_error + int list) \<Rightarrow> int list list \<Rightarrow> py_error + int list list" where
  "extract_with ins feat =
     blocks_loop (encode_block ins feat) (List.product [0..<N_BF_X] [0..<N_BF_Y]) 0
       (zeros N_BLOCKS BF_SIZE)"

definition extract_BFs_from_iriscode :: "int list list \<Rightarrow> py_error + int list list" where
  "extract_BFs_from_iriscode feat = extract_with insert_location feat"

definition extract_BFs_from_iriscode_XOR ::
  "int list list \<Rightarrow> int list \<Rightarrow> py_error + int list list" where
  "extract_BFs_from_iriscode_XOR feat keys = extract_with (insert_location_XOR keys) feat"

subsection \<open>Template extraction for one file (lines 137-166)\<close>

definition is_space :: "char \<Rightarrow> bool" where
  "is_space c = (c \<in> set [CHR '' '', CHR 0x09, CHR 0x0A, CHR 0x0B, CHR 0x0C, CHR 0x0D])"

definition rstrip :: "string \<Rightarrow> string" where
  "rstrip s = rev (dropWhile is_space (rev s))"

text \<open>\<^verbatim>\<open>int(c)\<close> of a string of one character.\<close>

definition int_of_char :: "char \<Rightarrow> py_error + int" where
  "int_of_char c =
     (if c \<in> set ''0123456789'' then Inr (int (of_char c) - 48) else Inl InvalidLiteral)"

fun map_err :: "('a \<Rightarrow> 'e + 'b) \<Rightarrow> 'a list \<Rightarrow> 'e + 'b list" where
  "map_err f [] = Inr []"
| "map_err f (x # xs) = bind_err (f x) (\<lambda>y. bind_err (map_err f xs) (\<lambda>ys. Inr (y # ys)))"

text \<open>Lines 144 and 159, on the lines that \<^verbatim>\<open>f.readlines()\<close> returns.\<close>

definition load_iriscode :: "string list \<Rightarrow> py_error + int list list" where
  "load_iriscode lines = map_err (\<lambda>line. map_err int_of_char (rstrip line)) lines"

text \<open>
  One iteration of the loop over the files: the template that \<^verbatim>\<open>numpy.savetxt\<close>
  receives, or the exception that ends the run before it is called. The permutation key
  and the XOR keys are drawn at random once per run; they are parameters here.
\<close>

definition process_sample ::
  "int \<Rightarrow> int list \<Rightarrow> int list list \<Rightarrow> string list \<Rightarrow> py_error + int list list" where
  "process_sample nXORKeys xorKeys key lines =
     bind_err (load_iriscode lines) (\<lambda>feat.
     bind_err (add_unlinkability feat key) (\<lambda>featUnlink.
     if \<not> (nXORKeys = 0) then extract_BFs_from_iriscode_XOR featUnlink xorKeys
     else extract_BFs_from_iriscode featUnlink))"

subsection \<open>The specification's words\<close>

text \<open>
  A column read top to bottom as a binary number, most significant bit first: the first
  entry has the highest weight.
\<close>

fun loc :: "int list \<Rightarrow> int" where
  "loc [] = 0"
| "loc (b # bs) = b * 2 ^ length bs + loc bs"

text \<open>Column \<open>w\<close> of the block at grid position \<open>(x, y)\<close>: rows \<open>[y\<cdot>B, (y+1)\<cdot>B)\<close>, column \<open>x\<cdot>W + w\<close>.\<close>

definition block_column :: "int list list \<Rightarrow> nat \<Rightarrow> nat \<Rightarrow> nat \<Rightarrow> int list" where
  "block_column feat x y w =
     map (\<lambda>r. feat ! r ! (x * N_WORDS_BF + w)) [y * N_BITS_BF ..< (y + 1) * N_BITS_BF]"

text \<open>A matrix of the reference shape \<open>20 \<times> 512\<close>, and one with entries 0 or 1.\<close>

definition has_shape :: "nat \<Rightarrow> nat \<Rightarrow> 'a list list \<Rightarrow> bool" where
  "has_shape n m a = (length a = n \<and> list_all (\<lambda>row. length row = m) a)"

definition is_bit :: "int \<Rightarrow> bool" where
  "is_bit b = (b = 0 \<or> b = 1)"

definition is_binary :: "int list list \<Rightarrow> bool" where
  "is_binary a = list_all (list_all is_bit) a"

definition valid_iriscode :: "int list list \<Rightarrow> bool" where
  "valid_iriscode a = (has_shape (2 * N_BITS_BF) (N_BF_X * N_WORDS_BF) a \<and> is_binary a)"

text \<open>
  A Bloom vector has length \<open>2 ^ B\<close> and entries 0 or 1; a protected template is
  \<open>Xb \<cdot> Yb\<close> of them.
\<close>

definition is_bloom_vector :: "int list \<Rightarrow> bool" where
  "is_bloom_vector bf = (length bf = BF_SIZE \<and> list_all is_bit bf)"

definition is_template :: "int list list \<Rightarrow> bool" where
  "is_template T = (length T = N_BLOCKS \<and> list_all is_bloom_vector T)"

text \<open>
  The region at quadrant \<open>(qr, qc)\<close> of a matrix: rows \<open>[qr\<cdot>B, (qr+1)\<cdot>B)\<close> and columns
  \<open>[qc\<cdot>256, (qc+1)\<cdot>256)\<close>, where \<open>256 = (N_BF_X / 2) \<cdot> N_WORDS_BF\<close>.
\<close>

definition quadrant :: "'a list list \<Rightarrow> nat \<Rightarrow> nat \<Rightarrow> 'a list list" where
  "quadrant a qr qc = map (\<lambda>row. take 256 (drop (qc * 256) row)) (take 10 (drop (qr * 10) a))"

text \<open>
  The transformation of one region: reinterpret it as \<open>80 = B \<cdot> Xh\<close> row-groups of width
  \<open>W\<close>, apply the permutation key, reshape back.
\<close>

definition permute_region :: "'a list list \<Rightarrow> int list \<Rightarrow> py_error + 'a list list" where
  "permute_region reg keyrow =
     bind_err (bind_err (reshape reg 80 32) (\<lambda>groups. take_rows groups keyrow))
       (\<lambda>p. reshape p 10 256)"

text \<open>
  A bijection over \<open>[0, n)\<close>, as a list of its values; key material is four of them over
  \<open>[0, B \<cdot> Xh)\<close>. The inverse permutation sends \<open>i\<close> to the position of \<open>i\<close>.
\<close>

definition is_permutation :: "nat \<Rightarrow> int list \<Rightarrow> bool" where
  "is_permutation n p = (length p = n \<and> list_all (\<lambda>k. 0 \<le> k \<and> k < int n) p \<and> distinct p)"

definition valid_key :: "int list list \<Rightarrow> bool" where
  "valid_key K = (length K = 4 \<and> list_all (is_permutation (N_BITS_BF * N_BF_X div 2)) K)"

definition position :: "int list \<Rightarrow> int \<Rightarrow> nat" where
  "position p v = length (takeWhile (\<lambda>k. k \<noteq> v) p)"

definition inverse_perm :: "int list \<Rightarrow> int list" where
  "inverse_perm p = map (\<lambda>i. int (position p (int i))) [0..<length p]"

definition inverse_key :: "int list list \<Rightarrow> int list list" where
  "inverse_key K = map inverse_perm K"

text \<open>
  The text forms, of the lines stripped of trailing blanks, that make the run end with
  an exception: a line shorter than \<open>Cols\<close>, lines of different lengths, a character that
  is no decimal digit, or a character other than 0 and 1 among the first \<open>Cols\<close>
  characters of the first \<open>Rows\<close> lines.
\<close>

definition rejected_sample :: "string list \<Rightarrow> bool" where
  "rejected_sample lines =
     (let rows = map rstrip lines in
      (\<exists>l\<in>set rows. length l < N_BF_X * N_WORDS_BF)
      \<or> (\<exists>l\<in>set rows. length l \<noteq> length (hd rows))
      \<or> (\<exists>l\<in>set rows. \<exists>ch\<in>set l. ch \<notin> set ''0123456789'')
      \<or> (\<exists>l\<in>set (take (2 * N_BITS_BF) rows). \<exists>ch\<in>set (take (N_BF_X * N_WORDS_BF) l).
            ch \<noteq> CHR ''0'' \<and> ch \<noteq> CHR ''1''))"

subsection \<open>Sample inputs\<close>

text \<open>
  Matrices of the reference shape (a chequerboard, all ones, only row 0 set) and key
  material (four identities, four reversals of \<open>[0, 80)\<close>).
\<close>

definition chequer_iriscode :: "int list list" where
  "chequer_iriscode = map (\<lambda>r. map (\<lambda>c. int ((r + c) mod 2)) [0..<512]) [0..<20]"

definition reversing_key :: "int list list" where
  "reversing_key = replicate 4 (map int (rev [0..<80]))"

definition ones_iriscode :: "int list list" where
  "ones_iriscode = replicate 20 (replicate 512 1)"

definition marked_iriscode :: "int list list" where
  "marked_iriscode = map (\<lambda>r. replicate 512 (if r = 0 then 1 else 0)) [0..<20]"

definition identity_key :: "int list list" where
  "identity_key = replicate 4 (map int [0..<80])"

text \<open>
  Text forms: twenty lines of 600 zeros, each ending with a newline; and twenty lines of
  512 characters, the last character of the last line being \<open>2\<close>.
\<close>

definition long_lines :: "string list" where
  "long_lines = replicate 20 (replicate 600 CHR ''0'' @ [CHR 0x0A])"

definition bad_digit_lines :: "string list" where
  "bad_digit_lines = replicate 19 (replicate 512 CHR ''0'') @ [replicate 511 CHR ''0'' @ ''2'']"

subsection \<open>Notions of the statements and proofs\<close>

text \<open>A Bloom filter with the bits \<open>js\<close> set, and the set of the 1-bits of a Bloom filter.\<close>

definition mark :: "int list \<Rightarrow> nat list \<Rightarrow> int list" where
  "mark bf js = foldl (\<lambda>b j. b[j := 1]) bf js"

definition ones :: "int list \<Rightarrow> nat set" where
  "ones bf = {i. i < length bf \<and> bf ! i = 1}"

definition in_bounds :: "int \<Rightarrow> nat \<Rightarrow> bool" where
  "in_bounds i n = (0 \<le> i \<and> i < int n)"

text \<open>
  An insertion \<open>ins\<close> realises \<open>idx\<close> when, on a location below \<open>2 ^ 10\<close> and a Bloom
  filter of length \<open>2 ^ 10\<close>, it succeeds and sets the bits \<open>idx location\<close>.
\<close>

definition realises :: "(int \<Rightarrow> int list \<Rightarrow> py_error + int list) \<Rightarrow> (int \<Rightarrow> nat list) \<Rightarrow> bool" where
  "realises ins idx =
     (\<forall>l bf. 0 \<le> l \<and> l < 1024 \<and> length bf = 1024 \<longrightarrow> ins l bf = Inr (mark bf (idx l)))"

definition covers :: "'a list list \<Rightarrow> bool" where
  "covers feat = (is_2d feat \<and> 20 \<le> length feat \<and> 512 \<le> ncols feat)"

definition window_binary :: "int list list \<Rightarrow> bool" where
  "window_binary feat = (\<forall>r<20. \<forall>c<512. feat ! r ! c = 0 \<or> feat ! r ! c = 1)"

definition block_marks :: "(int \<Rightarrow> nat list) \<Rightarrow> int list list \<Rightarrow> nat \<Rightarrow> nat \<Rightarrow> nat list" where
  "block_marks idx feat x y = concat (map (\<lambda>w. idx (loc (block_column feat x y w))) [0..<32])"

definition preserves :: "(int \<Rightarrow> int list \<Rightarrow> py_error + int list) \<Rightarrow> bool" where
  "preserves ins = (\<forall>l bf bf'. ins l bf = Inr bf' \<longrightarrow>
     length bf' = length bf \<and> (list_all is_bit bf \<longrightarrow> list_all is_bit bf'))"

text \<open>The exception of a write into the Bloom filter: a numpy index error on axis 0.\<close>

definition bf_write_error :: "py_error \<Rightarrow> bool" where
  "bf_write_error e = (case e of OutOfBounds i axis n \<Rightarrow> axis = 0 | _ \<Rightarrow> False)"

text \<open>
  The closed form of \<^verbatim>\<open>add_unlinkability\<close> on a matrix of at least \<open>20 \<times> 512\<close> and a key
  whose rows 0, 2 and 3 hold 80 valid indices each: entry \<open>(r, c)\<close> of a transformed region
  is the entry of the row-group that the key names.
\<close>

definition wrap_index :: "nat \<Rightarrow> int \<Rightarrow> nat" where
  "wrap_index n k = (if 0 \<le> k then nat k else nat (k + int n))"

definition perm_region :: "'a list list \<Rightarrow> int list \<Rightarrow> 'a list list" where
  "perm_region reg keyrow =
     map (\<lambda>r. map (\<lambda>c. reg ! (wrap_index 80 (keyrow ! (r * 8 + c div 32)) div 8)
                         ! (wrap_index 80 (keyrow ! (r * 8 + c div 32)) mod 8 * 32 + c mod 32))
            [0..<256]) [0..<10]"

definition index_row :: "int list \<Rightarrow> bool" where
  "index_row ks = (length ks = 80 \<and> list_all (\<lambda>k. - 80 \<le> k \<and> k < 80) ks)"

definition usable_key :: "int list list \<Rightarrow> bool" where
  "usable_key K = (is_2d K \<and> 4 \<le> length K \<and> index_row (K ! 0) \<and> index_row (K ! 2) \<and> index_row (K ! 3))"

definition assemble :: "int list list \<Rightarrow> int list list \<Rightarrow> int list list" where
  "assemble features K =
     set_region (set_region (set_region (set_region (zeros (length features) (ncols features))
       0 0 (perm_region (quadrant features 0 0) (K ! 0)))
       0 256 (perm_region (quadrant features 0 1) (K ! 2)))
       10 0 (perm_region (quadrant features 1 0) (K ! 2)))
       10 256 (perm_region (quadrant features 1 1) (K ! 3))"

definition key_index :: "nat \<Rightarrow> nat \<Rightarrow> nat" where
  "key_index qr qc = (if qr = 0 \<and> qc = 0 then 0 else if qr = 1 \<and> qc = 1 then 3 else 2)"

text \<open>
  A property of every entry in the first 20 rows and 512 columns, the part of a matrix
  that the script reads; and the integers whose decimal form consists of binary digits.
\<close>

definition window_all :: "(int \<Rightarrow> bool) \<Rightarrow> int list list \<Rightarrow> bool" where
  "window_all Q a = (\<forall>r<20. \<forall>c<512. Q (a ! r ! c))"

definition bin_string :: "int \<Rightarrow> bool" where
  "bin_string e = list_all is_bin_digit (py_str e)"

section \<open>The encoders\<close>

lemma bind_err_simps [simp]:
  "bind_err (Inl e) f = Inl e" "bind_err (Inr v) f = f v"
  by (simp_all add: bind_err_def)

lemma bind_err_Inr_iff: "bind_err m f = Inr r \<longleftrightarrow> (\<exists>v. m = Inr v \<and> f v = Inr r)"
  by (cases m) simp_all

lemma consts_simps:
  "N_BITS_BF = 10" "N_WORDS_BF = 32" "N_BF_X = 16" "N_BF_Y = 2" "N_BLOCKS = 32" "BF_SIZE = 1024"
  by (simp_all add: N_BITS_BF_def N_WORDS_BF_def N_BF_X_def N_BF_Y_def N_BLOCKS_def BF_SIZE_def)

lemma py_str_bit: "py_str 0 = ''0''" "py_str 1 = ''1''"
  by (simp_all add: py_str_def digit_char_def)

lemma concat_str_binary:
  "list_all is_bit hist \<Longrightarrow>
   concat (map py_str hist) = map (\<lambda>b. if b = 1 then CHR ''1'' else CHR ''0'') hist"
  by (induction hist) (auto simp: py_str_bit is_bit_def)

lemma bin_value_acc:
  "list_all is_bit hist \<Longrightarrow>
   foldl (\<lambda>acc c. 2 * acc + (if c = CHR ''1'' then 1 else 0)) a
     (map (\<lambda>b. if b = 1 then CHR ''1'' else CHR ''0'') hist) = a * 2 ^ length hist + loc hist"
  by (induction hist arbitrary: a) (auto simp: algebra_simps is_bit_def)

lemma location_of_binary:
  assumes "hist \<noteq> []" "list_all is_bit hist"
  shows "location_of hist = Inr (loc hist)"
proof -
  have "list_all is_bin_digit (map (\<lambda>b. if b = 1 then CHR ''1'' else CHR ''0'') hist)"
    by (auto simp add: list_all_iff is_bin_digit_def)
  then show ?thesis
    using assms bin_value_acc [OF assms(2), of 0]
    by (simp add: location_of_def int_base2_def concat_str_binary bin_value_def)
qed

lemma loc_bounds:
  "list_all is_bit hist \<Longrightarrow> 0 \<le> loc hist \<and> loc hist < 2 ^ length hist"
  by (induction hist) (auto simp: is_bit_def)

lemma mark_simps [simp]:
  "mark bf [] = bf" "mark bf (j # js) = mark (bf[j := 1]) js"
  by (simp_all add: mark_def)

lemma mark_append: "mark bf (js @ ks) = mark (mark bf js) ks"
  by (simp add: mark_def)

lemma length_mark [simp]: "length (mark bf js) = length bf"
  by (induction js arbitrary: bf) simp_all

lemma ones_update: "j < length bf \<Longrightarrow> ones (bf[j := 1]) = insert j (ones bf)"
  by (auto simp: ones_def nth_list_update)

lemma ones_mark: "\<forall>j\<in>set js. j < length bf \<Longrightarrow> ones (mark bf js) = ones bf \<union> set js"
  by (induction js arbitrary: bf) (auto simp: ones_update)

lemma mark_nth: "i < length bf \<Longrightarrow> mark bf js ! i = (if i \<in> set js then 1 else bf ! i)"
  by (induction js arbitrary: bf) (auto simp: nth_list_update)

lemma set_item_in_range:
  "0 \<le> i \<Longrightarrow> i < int (length bf) \<Longrightarrow> set_item bf i 1 = Inr (mark bf [nat i])"
  by (simp add: set_item_def norm_index_def)

lemma xor_in_range:
  fixes l k :: int
  assumes "0 \<le> l" "l < 2 ^ n" "0 \<le> k" "k < 2 ^ n"
  shows "0 \<le> l XOR k \<and> l XOR k < 2 ^ n"
  using assms by (simp add: XOR_upper)

lemma insert_location_XOR_in_range:
  "list_all (\<lambda>k. in_bounds (l XOR k) (length bf)) keys \<Longrightarrow>
   insert_location_XOR keys l bf = Inr (mark bf (map (\<lambda>k. nat (l XOR k)) keys))"
proof (induction keys arbitrary: bf)
  case Nil
  show ?case by simp
next
  case (Cons k keys)
  from Cons.prems have k: "0 \<le> l XOR k" "l XOR k < int (length bf)"
    by (simp_all add: in_bounds_def del: xor_nonnegative_int_iff)
  from Cons.prems have "list_all (\<lambda>k'. in_bounds (l XOR k') (length (bf[nat (l XOR k) := 1]))) keys"
    by simp
  from Cons.IH [OF this] set_item_in_range [OF k] show ?case by simp
qed

lemma realises_baseline: "realises insert_location (\<lambda>l. [nat l])"
  by (simp add: realises_def insert_location_def set_item_in_range)

lemma realises_XOR:
  assumes "\<forall>k\<in>set keys. 0 \<le> k \<and> k < 1024"
  shows "realises (insert_location_XOR keys) (\<lambda>l. map (\<lambda>k. nat (l XOR k)) keys)"
  unfolding realises_def
proof (intro allI impI)
  fix l :: int and bf :: "int list"
  assume h: "0 \<le> l \<and> l < 1024 \<and> length bf = 1024"
  have "\<forall>k\<in>set keys. in_bounds (l XOR k) (length bf)"
  proof
    fix k assume "k \<in> set keys"
    with assms have "0 \<le> k" "k < 2 ^ 10" by auto
    with h xor_in_range [of l 10 k] show "in_bounds (l XOR k) (length bf)"
      by (simp add: in_bounds_def)
  qed
  then have "list_all (\<lambda>k. in_bounds (l XOR k) (length bf)) keys"
    by (simp add: list_all_iff)
  then show "insert_location_XOR keys l bf = Inr (mark bf (map (\<lambda>k. nat (l XOR k)) keys))"
    by (rule insert_location_XOR_in_range)
qed

lemma is_2d_row_length: "is_2d a \<Longrightarrow> r < length a \<Longrightarrow> length (a ! r) = ncols a"
  by (simp add: is_2d_def ncols_def list_all_length)

lemma column_of_slice:
  assumes "r0 + n \<le> length a" "\<forall>r<length a. c0 + w < length (a ! r)" "w < m"
  shows "map (\<lambda>row. row ! w) (map (\<lambda>row. take m (drop c0 row)) (take n (drop r0 a)))
         = map (\<lambda>r. a ! r ! (c0 + w)) [r0..<r0 + n]"
proof (rule nth_equalityI)
  show "length (map (\<lambda>row. row ! w) (map (\<lambda>row. take m (drop c0 row)) (take n (drop r0 a))))
        = length (map (\<lambda>r. a ! r ! (c0 + w)) [r0..<r0 + n])"
    using assms(1) by simp
next
  fix i
  assume "i < length (map (\<lambda>row. row ! w) (map (\<lambda>row. take m (drop c0 row)) (take n (drop r0 a))))"
  then have i: "i < n" by simp
  with assms(1) have r: "r0 + i < length a" by simp
  with assms(2) have c: "c0 + w < length (a ! (r0 + i))" by blast
  have "take n (drop r0 a) ! i = a ! (r0 + i)"
    using i r by simp
  then show "map (\<lambda>row. row ! w) (map (\<lambda>row. take m (drop c0 row)) (take n (drop r0 a))) ! i
        = map (\<lambda>r. a ! r ! (c0 + w)) [r0..<r0 + n] ! i"
    using i r c assms(1,3) by simp
qed

lemma block_columns:
  assumes "covers feat" "x < 16" "y < 2"
  shows "\<exists>S. slice2 feat (y * N_BITS_BF) ((y + 1) * N_BITS_BF) (x * N_WORDS_BF) ((x + 1) * N_WORDS_BF) = Inr S
           \<and> slice_ncols feat (x * N_WORDS_BF) ((x + 1) * N_WORDS_BF) = 32
           \<and> (\<forall>w<32. get_column S 32 w = Inr (block_column feat x y w))"
proof -
  from assms have 2: "is_2d feat" and n: "20 \<le> length feat" and m: "512 \<le> ncols feat"
    by (simp_all add: covers_def)
  let ?S = "map (\<lambda>row. take 32 (drop (x * 32) row)) (take 10 (drop (y * 10) feat))"
  have s: "slice2 feat (y * N_BITS_BF) ((y + 1) * N_BITS_BF) (x * N_WORDS_BF) ((x + 1) * N_WORDS_BF) = Inr ?S"
    using 2 by (simp add: slice2_def consts_simps)
  have nc: "slice_ncols feat (x * N_WORDS_BF) ((x + 1) * N_WORDS_BF) = 32"
    using m assms(2) by (simp add: slice_ncols_def consts_simps min_def)
  have "get_column ?S 32 w = Inr (block_column feat x y w)" if w: "w < 32" for w
  proof -
    have a: "y * 10 + 10 \<le> length feat" using n assms(3) by simp
    have b: "\<forall>r<length feat. x * 32 + w < length (feat ! r)"
      using is_2d_row_length [OF 2] m assms(2) w by simp
    have "[y * 10..<10 + y * 10] = [y * 10..<y * 10 + 10]" by (simp add: add.commute)
    then show ?thesis
      using column_of_slice [OF a b w] w
      by (simp add: get_column_def block_column_def consts_simps)
  qed
  with s nc show ?thesis by blast
qed

lemma words_loop_realises:
  assumes "realises ins idx"
    and "\<forall>w\<in>set ws. get_column nh nc w = Inr (col w) \<and> col w \<noteq> [] \<and> length (col w) \<le> 10
            \<and> list_all is_bit (col w)"
    and "length bf = 1024"
  shows "words_loop ins nh nc ws bf = Inr (mark bf (concat (map (\<lambda>w. idx (loc (col w))) ws)))"
  using assms(2,3)
proof (induction ws arbitrary: bf)
  case Nil
  show ?case by simp
next
  case (Cons w ws)
  from Cons.prems have c: "get_column nh nc w = Inr (col w)" "col w \<noteq> []" "length (col w) \<le> 10"
      "list_all is_bit (col w)"
    by simp_all
  have "loc (col w) < 2 ^ length (col w)" "0 \<le> loc (col w)"
    using loc_bounds [OF c(4)] by simp_all
  moreover have "(2::int) ^ length (col w) \<le> 2 ^ 10"
    using c(3) by (intro power_increasing) simp_all
  ultimately have l: "0 \<le> loc (col w) \<and> loc (col w) < 1024 \<and> length bf = 1024"
    using Cons.prems(2) by simp
  with assms(1) have i: "ins (loc (col w)) bf = Inr (mark bf (idx (loc (col w))))"
    unfolding realises_def by blast
  have "words_loop ins nh nc ws (mark bf (idx (loc (col w))))
        = Inr (mark (mark bf (idx (loc (col w)))) (concat (map (\<lambda>w. idx (loc (col w))) ws)))"
    using Cons.prems by (intro Cons.IH) simp_all
  then show ?case
    using c i by (simp add: location_of_binary mark_append)
qed

lemma block_column_binary:
  assumes "window_binary feat" "x < 16" "y < 2" "w < 32"
  shows "list_all is_bit (block_column feat x y w)"
    and "length (block_column feat x y w) = 10"
proof -
  have "is_bit (feat ! r ! (x * 32 + w))" if "r < 10 + y * 10" for r
  proof -
    have "r < 20" "x * 32 + w < 512" using that assms by simp_all
    with assms(1) show ?thesis unfolding window_binary_def is_bit_def by blast
  qed
  then show "list_all is_bit (block_column feat x y w)"
    by (simp add: block_column_def consts_simps list_all_iff)
  show "length (block_column feat x y w) = 10"
    by (simp add: block_column_def consts_simps)
qed

lemma encode_block_realises:
  assumes "realises ins idx" "covers feat" "window_binary feat" "x < 16" "y < 2"
  shows "encode_block ins feat x y = Inr (mark (replicate 1024 0) (block_marks idx feat x y))"
proof -
  from block_columns [OF assms(2,4,5)] obtain S where
    s: "slice2 feat (y * N_BITS_BF) ((y + 1) * N_BITS_BF) (x * N_WORDS_BF) ((x + 1) * N_WORDS_BF) = Inr S"
    and nc: "slice_ncols feat (x * N_WORDS_BF) ((x + 1) * N_WORDS_BF) = 32"
    and cols: "\<forall>w<32. get_column S 32 w = Inr (block_column feat x y w)"
    by blast
  have "\<forall>w\<in>set [0..<32]. get_column S 32 w = Inr (block_column feat x y w)
          \<and> block_column feat x y w \<noteq> [] \<and> length (block_column feat x y w) \<le> 10
          \<and> list_all is_bit (block_column feat x y w)"
    using cols block_column_binary [OF assms(3,4,5)] by fastforce
  from words_loop_realises [OF assms(1) this, of "replicate 1024 0"]
  show ?thesis
    using s nc by (simp add: encode_block_def Let_def block_marks_def) (simp add: consts_simps)
qed

lemma blocks_loop_ok:
  assumes "\<forall>(x, y)\<in>set coords. enc x y = Inr (g x y)" "index + length coords \<le> length T"
  shows "blocks_loop enc coords index T
         = Inr (take index T @ map (\<lambda>(x, y). g x y) coords @ drop (index + length coords) T)"
  using assms
proof (induction coords arbitrary: index T)
  case Nil
  show ?case by simp
next
  case (Cons p coords)
  obtain x y where p: "p = (x, y)" by (cases p)
  from Cons.prems p have e: "enc x y = Inr (g x y)" by simp
  have i: "index < length T" using Cons.prems(2) by simp
  have "blocks_loop enc coords (index + 1) (T[index := g x y])
        = Inr (take (index + 1) (T[index := g x y]) @ map (\<lambda>(x, y). g x y) coords
               @ drop (index + 1 + length coords) (T[index := g x y]))"
    using Cons.prems by (intro Cons.IH) simp_all
  moreover have "take (index + 1) (T[index := g x y]) = take index T @ [g x y]"
    using i by (simp add: take_Suc_conv_app_nth)
  ultimately show ?case using p e by simp
qed

lemma extract_with_realises:
  assumes "realises ins idx" "covers feat" "window_binary feat"
  shows "extract_with ins feat
         = Inr (map (\<lambda>(x, y). mark (replicate 1024 0) (block_marks idx feat x y))
                  (List.product [0..<16] [0..<2]))"
proof -
  have "\<forall>(x, y)\<in>set (List.product [0..<16] [0..<2]).
          encode_block ins feat x y = Inr (mark (replicate 1024 0) (block_marks idx feat x y))"
    using encode_block_realises [OF assms] by auto
  from blocks_loop_ok [OF this, of 0 "zeros 32 1024"]
  show ?thesis by (simp add: extract_with_def consts_simps zeros_def)
qed

lemma product_nth_block:
  assumes "x < 16" "y < 2"
  shows "List.product [0..<16] [0..<2] ! (x * 2 + y) = (x, y)"
  using assms by (simp add: product_nth)

lemma list_all_update: "list_all P xs \<Longrightarrow> P v \<Longrightarrow> list_all P (xs[j := v])"
  using set_update_subset_insert [of xs j v] by (auto simp: list_all_iff)

lemma set_item_preserves:
  assumes "set_item bf i 1 = Inr bf'"
  shows "length bf' = length bf \<and> (list_all is_bit bf \<longrightarrow> list_all is_bit bf')"
proof -
  from assms obtain j where "bf' = bf[j := 1]"
    by (auto simp: set_item_def bind_err_Inr_iff)
  then show ?thesis by (simp add: list_all_update is_bit_def)
qed

lemma preserves_baseline: "preserves insert_location"
  unfolding preserves_def insert_location_def using set_item_preserves by blast

lemma insert_location_XOR_preserves:
  "insert_location_XOR keys l bf = Inr bf' \<Longrightarrow>
   length bf' = length bf \<and> (list_all is_bit bf \<longrightarrow> list_all is_bit bf')"
proof (induction keys arbitrary: bf)
  case Nil
  then show ?case by simp
next
  case (Cons k keys)
  from Cons.prems obtain b where b: "set_item bf (l XOR k) 1 = Inr b"
    and r: "insert_location_XOR keys l b = Inr bf'"
    by (auto simp: bind_err_Inr_iff)
  from set_item_preserves [OF b] Cons.IH [OF r] show ?case by simp
qed

lemma preserves_XOR: "preserves (insert_location_XOR keys)"
  unfolding preserves_def using insert_location_XOR_preserves by blast

lemma words_loop_preserves:
  assumes "preserves ins"
  shows "words_loop ins nh nc ws bf = Inr bf' \<Longrightarrow>
   length bf' = length bf \<and> (list_all is_bit bf \<longrightarrow> list_all is_bit bf')"
proof (induction ws arbitrary: bf)
  case Nil
  then show ?case by simp
next
  case (Cons w ws)
  from Cons.prems obtain l b where b: "ins l bf = Inr b"
    and r: "words_loop ins nh nc ws b = Inr bf'"
    by (auto simp: bind_err_Inr_iff)
  from assms b have "length b = length bf \<and> (list_all is_bit bf \<longrightarrow> list_all is_bit b)"
    unfolding preserves_def by blast
  with Cons.IH [OF r] show ?case by simp
qed

lemma zero_bloom_vector: "is_bloom_vector (replicate BF_SIZE 0)"
  by (simp add: is_bloom_vector_def list_all_iff is_bit_def)

lemma encode_block_bloom_vector:
  assumes "preserves ins" "encode_block ins feat x y = Inr bf"
  shows "is_bloom_vector bf"
proof -
  from assms(2) obtain S nc where
    "words_loop ins S nc [0..<N_WORDS_BF] (replicate BF_SIZE 0) = Inr bf"
    by (auto simp: encode_block_def Let_def bind_err_Inr_iff)
  from words_loop_preserves [OF assms(1) this] zero_bloom_vector
  show ?thesis by (simp add: is_bloom_vector_def)
qed

lemma blocks_loop_all:
  assumes "\<And>x y bf. enc x y = Inr bf \<Longrightarrow> P bf"
  shows "blocks_loop enc coords index T = Inr R \<Longrightarrow> list_all P T \<Longrightarrow>
         length R = length T \<and> list_all P R"
proof (induction coords arbitrary: index T)
  case Nil
  then show ?case by simp
next
  case (Cons p coords)
  obtain x y where p: "p = (x, y)" by (cases p)
  from Cons.prems(1) p obtain bf where e: "enc x y = Inr bf"
    and r: "blocks_loop enc coords (index + 1) (T[index := bf]) = Inr R"
    by (auto simp: bind_err_Inr_iff)
  have "list_all P (T[index := bf])"
    using Cons.prems(2) assms [OF e] by (rule list_all_update)
  from Cons.IH [OF r this] show ?case by simp
qed

lemma extract_with_template:
  assumes "preserves ins" "extract_with ins feat = Inr T"
  shows "is_template T"
proof -
  have "list_all is_bloom_vector (zeros N_BLOCKS BF_SIZE)"
    using zero_bloom_vector by (simp add: zeros_def list_all_iff)
  from blocks_loop_all [of "encode_block ins feat" is_bloom_vector, OF encode_block_bloom_vector [OF assms(1)]
      assms(2) [unfolded extract_with_def] this]
  show ?thesis by (simp add: is_template_def zeros_def)
qed

lemma valid_covers: "valid_iriscode feat \<Longrightarrow> covers feat"
  by (cases feat) (auto simp: valid_iriscode_def has_shape_def covers_def is_2d_def ncols_def consts_simps
      list_all_iff)

lemma valid_window: "valid_iriscode feat \<Longrightarrow> window_binary feat"
  unfolding valid_iriscode_def has_shape_def is_binary_def window_binary_def
  by (auto simp: list_all_length consts_simps is_bit_def)

lemma template_row:
  assumes "realises ins idx" "valid_iriscode feat" "x < 16" "y < 2"
  shows "\<exists>T. extract_with ins feat = Inr T
          \<and> T ! (x * 2 + y) = mark (replicate 1024 0) (block_marks idx feat x y)"
proof -
  have "x * 2 + y < length (List.product [0..<16] [0..<2])" using assms(3,4) by simp
  then have "map (\<lambda>(x, y). mark (replicate 1024 0) (block_marks idx feat x y))
               (List.product [0..<16] [0..<2]) ! (x * 2 + y)
             = mark (replicate 1024 0) (block_marks idx feat x y)"
    by (simp only: nth_map product_nth_block [OF assms(3,4)] prod.case)
  then show ?thesis
    using extract_with_realises [OF assms(1) valid_covers [OF assms(2)] valid_window [OF assms(2)]]
    by simp
qed

lemma ones_zero: "ones (replicate n 0) = {}"
  by (auto simp: ones_def)

lemma loc_block_column:
  assumes "valid_iriscode feat" "x < 16" "y < 2" "w < 32"
  shows "0 \<le> loc (block_column feat x y w)" "loc (block_column feat x y w) < 1024"
  using loc_bounds [OF block_column_binary(1) [OF valid_window [OF assms(1)] assms(2,3,4)]]
    block_column_binary(2) [OF valid_window [OF assms(1)] assms(2,3,4)]
  by simp_all

lemma valid_chequer: "valid_iriscode chequer_iriscode"
  by (simp add: valid_iriscode_def has_shape_def is_binary_def chequer_iriscode_def consts_simps
      list_all_iff is_bit_def) (simp add: mod2_eq_if)

lemma set_item_xor_zero: "set_item bf (l XOR 0) 1 = set_item bf l 1"
  by simp

lemma nat_xor_less:
  fixes l k :: int
  assumes "0 \<le> l" "l < 1024" "0 \<le> k" "k < 1024"
  shows "nat (l XOR k) < 1024"
proof -
  have "l XOR k < 2 ^ 10" using assms by (intro XOR_upper) simp_all
  then show ?thesis by simp
qed

lemma insert_location_XOR_zero: "insert_location_XOR [0] = insert_location"
  by (intro ext) (simp add: insert_location_def set_item_def bind_err_def split: sum.splits)

lemma loc_ones: "loc (replicate 10 1) = 1023"
  by (simp add: numeral_eq_Suc)

lemma location_of_Inr_binary:
  assumes "list_all is_bit hist" "location_of hist = Inr l"
  shows "l = loc hist \<and> 0 \<le> l \<and> l < 2 ^ length hist"
proof -
  have "hist \<noteq> []"
  proof
    assume "hist = []"
    with assms(2) show False by (simp add: location_of_def int_base2_def)
  qed
  from location_of_binary [OF this assms(1)] assms(2) loc_bounds [OF assms(1)]
  show ?thesis by simp
qed

lemma slice2_binary:
  assumes "is_binary feat" "slice2 feat r0 (r0 + n) c0 (c0 + m) = Inr S"
  shows "length S \<le> n \<and> list_all (\<lambda>row. length row = slice_ncols feat c0 (c0 + m) \<and> list_all is_bit row) S"
proof -
  from assms(2) have 2: "is_2d feat"
    and S: "S = map (\<lambda>row. take m (drop c0 row)) (take n (drop r0 feat))"
    by (simp_all add: slice2_def split: if_splits)
  have "length (take m (drop c0 row)) = slice_ncols feat c0 (c0 + m) \<and> list_all is_bit (take m (drop c0 row))"
    if "row \<in> set (take n (drop r0 feat))" for row
  proof -
    from that have r: "row \<in> set feat"
      by (meson in_set_dropD in_set_takeD)
    with 2 have "length row = ncols feat"
      unfolding is_2d_def ncols_def list_all_iff by blast
    then have a: "length (take m (drop c0 row)) = slice_ncols feat c0 (c0 + m)"
      by (auto simp: slice_ncols_def min_def)
    from r assms(1) have "list_all is_bit row"
      by (simp add: is_binary_def list_all_iff)
    then have "list_all is_bit (take m (drop c0 row))"
      unfolding list_all_iff by (meson in_set_dropD in_set_takeD)
    with a show ?thesis by simp
  qed
  then show ?thesis
    by (simp add: S list_all_iff)
qed

lemma get_column_binary:
  assumes "list_all (\<lambda>row. length row = nc \<and> list_all is_bit row) S" "get_column S nc w = Inr hist"
  shows "list_all is_bit hist \<and> length hist = length S"
proof -
  from assms(2) have w: "w < nc" and h: "hist = map (\<lambda>row. row ! w) S"
    by (simp_all add: get_column_def split: if_splits)
  have "is_bit (row ! w)" if "row \<in> set S" for row
  proof -
    from that assms(1) have "length row = nc" "list_all is_bit row"
      by (simp_all add: list_all_iff)
    with w show ?thesis by (simp add: list_all_length)
  qed
  then show ?thesis by (simp add: h list_all_iff)
qed

lemma words_loop_no_write_error:
  assumes "realises ins idx"
    and "list_all (\<lambda>row. length row = nc \<and> list_all is_bit row) S" "length S \<le> 10"
  shows "length bf = 1024 \<Longrightarrow> words_loop ins S nc ws bf = Inl e \<Longrightarrow> \<not> bf_write_error e"
proof (induction ws arbitrary: bf)
  case Nil
  then show ?case by simp
next
  case (Cons w ws)
  show ?case
  proof (cases "get_column S nc w")
    case (Inl e')
    with Cons.prems(2) have "e = OutOfBounds (int w) 1 nc"
      by (simp add: get_column_def split: if_splits)
    then show ?thesis by (simp add: bf_write_error_def)
  next
    case c: (Inr hist)
    from get_column_binary [OF assms(2) c] assms(3)
    have h: "list_all is_bit hist" "length hist \<le> 10" by simp_all
    show ?thesis
    proof (cases "location_of hist")
      case (Inl e')
      with Cons.prems(2) c have "e = InvalidLiteral"
        by (simp add: location_of_def int_base2_def Let_def split: if_splits)
      then show ?thesis by (simp add: bf_write_error_def)
    next
      case l: (Inr location)
      from location_of_Inr_binary [OF h(1) l] have "0 \<le> location" "location < 2 ^ length hist"
        by simp_all
      moreover have "(2::int) ^ length hist \<le> 2 ^ 10"
        using h(2) by (intro power_increasing) simp_all
      ultimately have "0 \<le> location \<and> location < 1024 \<and> length bf = 1024"
        using Cons.prems(1) by simp
      with assms(1) have i: "ins location bf = Inr (mark bf (idx location))"
        unfolding realises_def by blast
      from Cons.prems(2) c l i
      have "words_loop ins S nc ws (mark bf (idx location)) = Inl e" by simp
      with Cons.IH [of "mark bf (idx location)"] Cons.prems(1) show ?thesis by simp
    qed
  qed
qed

lemma encode_block_no_write_error:
  assumes "realises ins idx" "is_binary feat" "encode_block ins feat x y = Inl e"
  shows "\<not> bf_write_error e"
proof (cases "slice2 feat (y * 10) (y * 10 + 10) (x * 32) (x * 32 + 32)")
  case (Inl e')
  with assms(3) have "e = TooManyIndices"
    by (simp add: encode_block_def Let_def consts_simps slice2_def add.commute split: if_splits)
  then show ?thesis by (simp add: bf_write_error_def)
next
  case (Inr S)
  from slice2_binary [OF assms(2) Inr]
  have S: "list_all (\<lambda>row. length row = slice_ncols feat (x * 32) (x * 32 + 32) \<and> list_all is_bit row) S"
    "length S \<le> 10" by simp_all
  from assms(3) Inr
  have "words_loop ins S (slice_ncols feat (x * 32) (x * 32 + 32)) [0..<32] (replicate 1024 0) = Inl e"
    by (simp add: encode_block_def Let_def consts_simps add.commute)
  from words_loop_no_write_error [OF assms(1) S _ this] show ?thesis by simp
qed

lemma blocks_loop_error:
  "blocks_loop enc coords index T = Inl e \<Longrightarrow> \<exists>x y. enc x y = Inl e"
proof (induction coords arbitrary: index T)
  case Nil
  then show ?case by simp
next
  case (Cons p coords)
  obtain x y where p: "p = (x, y)" by (cases p)
  show ?case
  proof (cases "enc x y")
    case (Inl e')
    with Cons.prems p show ?thesis by auto
  next
    case (Inr bf)
    with Cons.prems p have "blocks_loop enc coords (index + 1) (T[index := bf]) = Inl e" by simp
    then show ?thesis by (rule Cons.IH)
  qed
qed

lemma valid_ones: "valid_iriscode ones_iriscode"
  by (simp add: valid_iriscode_def has_shape_def is_binary_def ones_iriscode_def consts_simps
      list_all_iff is_bit_def)

lemma ones_column: "block_column ones_iriscode 0 0 0 = replicate N_BITS_BF 1"
  by (simp add: block_column_def ones_iriscode_def consts_simps list_eq_iff_nth_eq)

lemma xor_eq_self_iff: "(l::int) XOR k = l \<longleftrightarrow> k = 0"
proof
  assume "l XOR k = l"
  then have "l XOR (l XOR k) = l XOR l" by simp
  then show "k = 0" by (simp flip: xor.assoc)
next
  assume "k = 0"
  then show "l XOR k = l" by simp
qed

lemma location_among_writes: "(l::int) \<in> (\<lambda>k. l XOR k) ` S \<longleftrightarrow> 0 \<in> S"
proof
  assume "l \<in> (\<lambda>k. l XOR k) ` S"
  then obtain k where "k \<in> S" "l = l XOR k" by blast
  then show "0 \<in> S" using xor_eq_self_iff [of l k] by simp
next
  assume "0 \<in> S"
  then have "l XOR 0 \<in> (\<lambda>k. l XOR k) ` S" by (rule imageI)
  then show "l \<in> (\<lambda>k. l XOR k) ` S" by simp
qed

section \<open>The claims on the encoders\<close>

text \<open>
  Claim C1. On a binary \<open>20 \<times> 512\<close> matrix the baseline encoder returns a template
  whose row for the block at \<open>(x, y)\<close>, row \<open>x \<cdot> N_BF_Y + y\<close>, has length \<open>2 ^ B\<close>,
  holds only 0 and 1, and has its 1-bits exactly at the locations of the block's \<open>W\<close>
  columns, each column read top to bottom with the most significant bit first; so at
  most \<open>W\<close> bits are set.
\<close>

theorem baseline_block_bits:
  assumes "valid_iriscode feat" "x < N_BF_X" "y < N_BF_Y"
  shows "\<exists>T. extract_BFs_from_iriscode feat = Inr T
           \<and> length (T ! (x * N_BF_Y + y)) = 2 ^ N_BITS_BF
           \<and> {i. i < 2 ^ N_BITS_BF \<and> T ! (x * N_BF_Y + y) ! i = 1}
               = (\<lambda>w. nat (loc (block_column feat x y w))) ` {0..<N_WORDS_BF}
           \<and> list_all is_bit (T ! (x * N_BF_Y + y))
           \<and> card {i. i < 2 ^ N_BITS_BF \<and> T ! (x * N_BF_Y + y) ! i = 1} \<le> N_WORDS_BF"
proof -
  have x: "x < 16" and y: "y < 2" using assms(2,3) by (simp_all add: consts_simps)
  let ?js = "block_marks (\<lambda>l. [nat l]) feat x y"
  let ?bf = "mark (replicate 1024 0) ?js"
  from template_row [OF realises_baseline assms(1) x y] obtain T where
    T: "extract_with insert_location feat = Inr T" and row: "T ! (x * 2 + y) = ?bf"
    by blast
  have js: "set ?js = (\<lambda>w. nat (loc (block_column feat x y w))) ` {0..<32}"
    by (auto simp: block_marks_def)
  have "\<forall>j\<in>set ?js. j < length (replicate 1024 (0::int))"
  proof
    fix j assume "j \<in> set ?js"
    then obtain w where w: "w < 32" and j: "j = nat (loc (block_column feat x y w))"
      by (auto simp: js)
    from loc_block_column [OF assms(1) x y w] j show "j < length (replicate 1024 (0::int))"
      by simp
  qed
  from ones_mark [OF this] have o: "ones ?bf = set ?js"
    by (simp add: ones_zero)
  have o': "{i. i < 1024 \<and> ?bf ! i = 1} = ones ?bf"
    by (simp add: ones_def)
  have "card (set ?js) \<le> length ?js" by (rule card_length)
  also have "length ?js = 32" by (simp add: block_marks_def length_concat comp_def sum_list_triv)
  finally have c: "card (set ?js) \<le> 32" .
  have "is_template T"
    using extract_with_template [OF preserves_baseline T] .
  then have b: "list_all is_bit (T ! (x * 2 + y))"
    using x y by (simp add: is_template_def is_bloom_vector_def list_all_length consts_simps)
  show ?thesis
    using T row o o' js c b
    by (simp add: extract_BFs_from_iriscode_def consts_simps)
qed

theorem baseline_block_bits_witness:
  "\<exists>T. extract_BFs_from_iriscode chequer_iriscode = Inr T
     \<and> length (T ! (3 * N_BF_Y + 1)) = 2 ^ N_BITS_BF
     \<and> {i. i < 2 ^ N_BITS_BF \<and> T ! (3 * N_BF_Y + 1) ! i = 1}
         = (\<lambda>w. nat (loc (block_column chequer_iriscode 3 1 w))) ` {0..<N_WORDS_BF}
     \<and> list_all is_bit (T ! (3 * N_BF_Y + 1))
     \<and> card {i. i < 2 ^ N_BITS_BF \<and> T ! (3 * N_BF_Y + 1) ! i = 1} \<le> N_WORDS_BF"
  using baseline_block_bits [of chequer_iriscode 3 1] valid_chequer
  by (simp add: consts_simps)

text \<open>
  Claim C2. With XOR keys in \<open>[0, 2 ^ B)\<close>, the fusion encoder returns a template whose row
  for the block at \<open>(x, y)\<close> has its 1-bits exactly at \<open>loc column XOR k\<close>, for the columns
  of the block and the keys \<open>k\<close>; a column's own location is among the indices written
  for it exactly when 0 is a key; and with the single key 0 the encoder returns, on every
  input, what the baseline encoder returns.
\<close>

theorem xor_block_bits:
  assumes "valid_iriscode feat" "list_all (\<lambda>k. 0 \<le> k \<and> k < 2 ^ N_BITS_BF) keys"
    "x < N_BF_X" "y < N_BF_Y"
  shows "(\<exists>T. extract_BFs_from_iriscode_XOR feat keys = Inr T
            \<and> {i. i < 2 ^ N_BITS_BF \<and> T ! (x * N_BF_Y + y) ! i = 1}
                = (\<lambda>(w, k). nat (loc (block_column feat x y w) XOR k)) ` ({0..<N_WORDS_BF} \<times> set keys))
         \<and> (\<forall>w. loc (block_column feat x y w)
                  \<in> (\<lambda>k. loc (block_column feat x y w) XOR k) ` set keys \<longleftrightarrow> 0 \<in> set keys)
         \<and> (\<forall>m. extract_BFs_from_iriscode_XOR m [0] = extract_BFs_from_iriscode m)"
proof -
  have x: "x < 16" and y: "y < 2" using assms(3,4) by (simp_all add: consts_simps)
  have k: "\<forall>k\<in>set keys. 0 \<le> k \<and> k < 1024"
    using assms(2) by (simp add: list_all_iff consts_simps)
  let ?idx = "\<lambda>l. map (\<lambda>k. nat (l XOR k)) keys"
  let ?js = "block_marks ?idx feat x y"
  let ?bf = "mark (replicate 1024 0) ?js"
  from template_row [OF realises_XOR [OF k] assms(1) x y] obtain T where
    T: "extract_with (insert_location_XOR keys) feat = Inr T" and row: "T ! (x * 2 + y) = ?bf"
    by blast
  have js: "set ?js = (\<lambda>(w, k). nat (loc (block_column feat x y w) XOR k)) ` ({0..<32} \<times> set keys)"
    by (auto simp: block_marks_def)
  have "\<forall>j\<in>set ?js. j < length (replicate 1024 (0::int))"
  proof
    fix j assume "j \<in> set ?js"
    then obtain w k' where w: "w < 32" and k': "k' \<in> set keys"
      and j: "j = nat (loc (block_column feat x y w) XOR k')"
      by (auto simp: js)
    from k k' have "0 \<le> k'" "k' < 1024" by auto
    with loc_block_column [OF assms(1) x y w]
    have "nat (loc (block_column feat x y w) XOR k') < 1024"
      by (intro nat_xor_less)
    with j show "j < length (replicate 1024 (0::int))" by simp
  qed
  from ones_mark [OF this] have o: "ones ?bf = set ?js"
    by (simp add: ones_zero)
  have o': "{i. i < 1024 \<and> ?bf ! i = 1} = ones ?bf"
    by (simp add: ones_def)
  have 1: "\<exists>T. extract_BFs_from_iriscode_XOR feat keys = Inr T
            \<and> {i. i < 2 ^ N_BITS_BF \<and> T ! (x * N_BF_Y + y) ! i = 1}
                = (\<lambda>(w, k). nat (loc (block_column feat x y w) XOR k)) ` ({0..<N_WORDS_BF} \<times> set keys)"
    using T row o o' js by (simp add: extract_BFs_from_iriscode_XOR_def consts_simps)
  have 2: "\<forall>m. extract_BFs_from_iriscode_XOR m [0] = extract_BFs_from_iriscode m"
    by (simp only: extract_BFs_from_iriscode_XOR_def extract_BFs_from_iriscode_def
        insert_location_XOR_zero) simp
  have 3: "\<forall>w. loc (block_column feat x y w)
                  \<in> (\<lambda>k. loc (block_column feat x y w) XOR k) ` set keys \<longleftrightarrow> 0 \<in> set keys"
    by (simp only: location_among_writes) simp
  from 1 3 2 show ?thesis by (intro conjI)
qed

theorem xor_block_bits_witness:
  "(\<exists>T. extract_BFs_from_iriscode_XOR chequer_iriscode [0, 5, 1023] = Inr T
      \<and> {i. i < 2 ^ N_BITS_BF \<and> T ! (3 * N_BF_Y + 1) ! i = 1}
          = (\<lambda>(w, k). nat (loc (block_column chequer_iriscode 3 1 w) XOR k))
              ` ({0..<N_WORDS_BF} \<times> set [0, 5, 1023]))
   \<and> (loc (block_column chequer_iriscode 3 1 0)
          \<in> (\<lambda>k. loc (block_column chequer_iriscode 3 1 0) XOR k) ` set [0, 5, 1023]
        \<longleftrightarrow> 0 \<in> set [0, 5, 1023 :: int])
   \<and> extract_BFs_from_iriscode_XOR chequer_iriscode [0]
       = extract_BFs_from_iriscode chequer_iriscode"
proof -
  have "list_all (\<lambda>k. 0 \<le> k \<and> k < 2 ^ N_BITS_BF) [0, 5, 1023 :: int]"
    by (simp add: consts_simps)
  from xor_block_bits [OF valid_chequer this, of 3 1] show ?thesis
    by (simp only: consts_simps)
qed

text \<open>
  Claim C5. On a binary \<open>20 \<times> 512\<close> matrix the baseline encoder returns a template, the
  fusion encoder returns one for XOR keys in \<open>[0, 2 ^ B)\<close>, and every template that either
  returns has \<open>Xb \<cdot> Yb = 32\<close> rows of length \<open>2 ^ B = 1024\<close> with entries 0 or 1.
\<close>

theorem template_shape:
  assumes "valid_iriscode feat"
  shows "(\<exists>T. extract_BFs_from_iriscode feat = Inr T \<and> is_template T)
       \<and> (\<forall>keys. list_all (\<lambda>k. 0 \<le> k \<and> k < 2 ^ N_BITS_BF) keys \<longrightarrow>
             (\<exists>T. extract_BFs_from_iriscode_XOR feat keys = Inr T))
       \<and> (\<forall>keys T. extract_BFs_from_iriscode_XOR feat keys = Inr T \<longrightarrow> is_template T)"
proof (intro conjI allI impI)
  from extract_with_realises [OF realises_baseline valid_covers [OF assms] valid_window [OF assms]]
  obtain T where T: "extract_with insert_location feat = Inr T" by blast
  with extract_with_template [OF preserves_baseline T]
  show "\<exists>T. extract_BFs_from_iriscode feat = Inr T \<and> is_template T"
    by (simp add: extract_BFs_from_iriscode_def)
next
  fix keys :: "int list"
  assume "list_all (\<lambda>k. 0 \<le> k \<and> k < 2 ^ N_BITS_BF) keys"
  then have k: "\<forall>k\<in>set keys. 0 \<le> k \<and> k < 1024"
    by (simp add: list_all_iff consts_simps)
  from extract_with_realises [OF realises_XOR [OF k] valid_covers [OF assms] valid_window [OF assms]]
  show "\<exists>T. extract_BFs_from_iriscode_XOR feat keys = Inr T"
    by (simp add: extract_BFs_from_iriscode_XOR_def)
next
  fix keys T
  assume "extract_BFs_from_iriscode_XOR feat keys = Inr T"
  then show "is_template T"
    using extract_with_template [OF preserves_XOR] by (simp add: extract_BFs_from_iriscode_XOR_def)
qed

theorem template_shape_witness:
  "(\<exists>T. extract_BFs_from_iriscode chequer_iriscode = Inr T \<and> is_template T)
   \<and> (\<exists>T. extract_BFs_from_iriscode_XOR chequer_iriscode [0, 5, 1023] = Inr T \<and> is_template T)"
proof -
  have "list_all (\<lambda>k. 0 \<le> k \<and> k < 2 ^ N_BITS_BF) [0, 5, 1023 :: int]"
    by (simp add: consts_simps)
  with template_shape [OF valid_chequer] show ?thesis by blast
qed

text \<open>
  Claim C7. Where column 0 of a block is all ones, the baseline encoder sets bit 1023 of
  the block's row; the fusion encoder with the keyset \<open>{5}\<close> sets bit 1018, and sets bit
  1023 exactly when another column of the block has a location that 5 sends to 1023.
\<close>

theorem all_ones_column:
  assumes "valid_iriscode feat" "x < N_BF_X" "y < N_BF_Y"
    and "block_column feat x y 0 = replicate N_BITS_BF 1"
  shows "\<exists>T T'. extract_BFs_from_iriscode feat = Inr T \<and> T ! (x * N_BF_Y + y) ! 1023 = 1
         \<and> extract_BFs_from_iriscode_XOR feat [5] = Inr T' \<and> T' ! (x * N_BF_Y + y) ! 1018 = 1
         \<and> (T' ! (x * N_BF_Y + y) ! 1023 = 1
              \<longleftrightarrow> (\<exists>w. 0 < w \<and> w < N_WORDS_BF \<and> loc (block_column feat x y w) XOR 5 = 1023))"
proof -
  have x: "x < 16" and y: "y < 2" using assms(2,3) by (simp_all add: consts_simps)
  have l0: "loc (block_column feat x y 0) = 1023"
    using assms(4) loc_ones by (simp add: consts_simps)
  let ?js = "block_marks (\<lambda>l. [nat l]) feat x y"
  from template_row [OF realises_baseline assms(1) x y] obtain T where
    T: "extract_with insert_location feat = Inr T"
    and row: "T ! (x * 2 + y) = mark (replicate 1024 0) ?js"
    by blast
  have js: "set ?js = (\<lambda>w. nat (loc (block_column feat x y w))) ` {0..<32}"
    by (auto simp: block_marks_def)
  have "nat (loc (block_column feat x y 0)) \<in> set ?js"
    unfolding js by (rule imageI) simp
  then have "1023 \<in> set ?js" by (simp add: l0)
  then have 1: "T ! (x * 2 + y) ! 1023 = 1"
    by (simp add: row mark_nth)
  have k: "\<forall>k\<in>set [5::int]. 0 \<le> k \<and> k < 1024" by simp
  let ?ks = "block_marks (\<lambda>l. map (\<lambda>k. nat (l XOR k)) [5]) feat x y"
  from template_row [OF realises_XOR [OF k] assms(1) x y] obtain T' where
    T': "extract_with (insert_location_XOR [5]) feat = Inr T'"
    and row': "T' ! (x * 2 + y) = mark (replicate 1024 0) ?ks"
    by blast
  have ks: "set ?ks = (\<lambda>w. nat (loc (block_column feat x y w) XOR 5)) ` {0..<32}"
    by (auto simp: block_marks_def)
  have x5: "(1023::int) XOR 5 = 1018" by simp
  have "nat (loc (block_column feat x y 0) XOR 5) \<in> set ?ks"
    unfolding ks by (rule imageI) simp
  then have "1018 \<in> set ?ks" by (simp add: l0 x5)
  then have 2: "T' ! (x * 2 + y) ! 1018 = 1"
    by (simp add: row' mark_nth)
  have m: "T' ! (x * 2 + y) ! 1023 = 1 \<longleftrightarrow> 1023 \<in> set ?ks"
    by (simp add: row' mark_nth)
  have 3: "T' ! (x * 2 + y) ! 1023 = 1
      \<longleftrightarrow> (\<exists>w. 0 < w \<and> w < 32 \<and> loc (block_column feat x y w) XOR 5 = 1023)"
  proof
    assume "T' ! (x * 2 + y) ! 1023 = 1"
    with m have "1023 \<in> set ?ks" by simp
    then obtain w where w: "w < 32" and e: "nat (loc (block_column feat x y w) XOR 5) = 1023"
      unfolding ks by auto
    from e have e': "loc (block_column feat x y w) XOR 5 = 1023" by linarith
    have "w \<noteq> 0"
    proof
      assume "w = 0"
      with e' l0 x5 show False by simp
    qed
    with w e' show "\<exists>w. 0 < w \<and> w < 32 \<and> loc (block_column feat x y w) XOR 5 = 1023"
      by auto
  next
    assume "\<exists>w. 0 < w \<and> w < 32 \<and> loc (block_column feat x y w) XOR 5 = 1023"
    then obtain w where w: "w < 32" and e: "loc (block_column feat x y w) XOR 5 = 1023"
      by blast
    have "nat (loc (block_column feat x y w) XOR 5) \<in> set ?ks"
      unfolding ks using w by (intro imageI) simp
    then have "1023 \<in> set ?ks" by (simp add: e)
    with m show "T' ! (x * 2 + y) ! 1023 = 1" by simp
  qed
  from T 1 T' 2 3 show ?thesis
    by (simp add: extract_BFs_from_iriscode_def extract_BFs_from_iriscode_XOR_def consts_simps)
qed

theorem all_ones_column_witness:
  "\<exists>T T'. extract_BFs_from_iriscode ones_iriscode = Inr T \<and> T ! (0 * N_BF_Y + 0) ! 1023 = 1
     \<and> extract_BFs_from_iriscode_XOR ones_iriscode [5] = Inr T' \<and> T' ! (0 * N_BF_Y + 0) ! 1018 = 1
     \<and> (T' ! (0 * N_BF_Y + 0) ! 1023 = 1
          \<longleftrightarrow> (\<exists>w. 0 < w \<and> w < N_WORDS_BF \<and> loc (block_column ones_iriscode 0 0 w) XOR 5 = 1023))"
  using all_ones_column [of ones_iriscode 0 0] valid_ones ones_column
  by (simp add: consts_simps)

text \<open>
  Claim C10. On a matrix with entries 0 or 1, of any shape, and XOR keys in
  \<open>[0, 2 ^ B)\<close>: every location the fusion encoder computes for a column, XORed with a key,
  lies in \<open>[0, 2 ^ B)\<close>, and the encoder never ends with the index error of a write into
  the Bloom filter.
\<close>

theorem xor_writes_in_bounds:
  assumes "is_binary feat" "list_all (\<lambda>k. 0 \<le> k \<and> k < 2 ^ N_BITS_BF) keys"
  shows "(\<forall>x y S w hist location k.
            slice2 feat (y * N_BITS_BF) ((y + 1) * N_BITS_BF) (x * N_WORDS_BF) ((x + 1) * N_WORDS_BF) = Inr S
            \<and> get_column S (slice_ncols feat (x * N_WORDS_BF) ((x + 1) * N_WORDS_BF)) w = Inr hist
            \<and> location_of hist = Inr location \<and> k \<in> set keys
            \<longrightarrow> 0 \<le> location XOR k \<and> location XOR k < 2 ^ N_BITS_BF)
       \<and> (\<forall>i n. extract_BFs_from_iriscode_XOR feat keys \<noteq> Inl (OutOfBounds i 0 n))"
proof (intro conjI allI impI)
  fix x y S w hist location k
  assume a: "slice2 feat (y * N_BITS_BF) ((y + 1) * N_BITS_BF) (x * N_WORDS_BF) ((x + 1) * N_WORDS_BF) = Inr S
            \<and> get_column S (slice_ncols feat (x * N_WORDS_BF) ((x + 1) * N_WORDS_BF)) w = Inr hist
            \<and> location_of hist = Inr location \<and> k \<in> set keys"
  then have s: "slice2 feat (y * 10) (y * 10 + 10) (x * 32) (x * 32 + 32) = Inr S"
    and c: "get_column S (slice_ncols feat (x * 32) (x * 32 + 32)) w = Inr hist"
    and l: "location_of hist = Inr location" and k: "k \<in> set keys"
    by (simp_all add: consts_simps add.commute)
  from slice2_binary [OF assms(1) s]
  have S: "list_all (\<lambda>row. length row = slice_ncols feat (x * 32) (x * 32 + 32) \<and> list_all is_bit row) S"
    "length S \<le> 10" by simp_all
  from get_column_binary [OF S(1) c] S(2) have h: "list_all is_bit hist" "length hist \<le> 10"
    by simp_all
  from location_of_Inr_binary [OF h(1) l] have "0 \<le> location" "location < 2 ^ length hist"
    by simp_all
  moreover have "(2::int) ^ length hist \<le> 2 ^ 10"
    using h(2) by (intro power_increasing) simp_all
  ultimately have loc: "0 \<le> location" "location < 2 ^ 10" by simp_all
  from assms(2) k have kk: "0 \<le> k" "k < 2 ^ 10"
    by (simp_all add: list_all_iff consts_simps)
  from loc kk show "0 \<le> location XOR k" by simp
  from loc kk have "location XOR k < 2 ^ 10" by (intro XOR_upper)
  then show "location XOR k < 2 ^ N_BITS_BF" by (simp add: consts_simps)
next
  fix i n
  have k: "\<forall>k\<in>set keys. 0 \<le> k \<and> k < 1024"
    using assms(2) by (simp add: list_all_iff consts_simps)
  show "extract_BFs_from_iriscode_XOR feat keys \<noteq> Inl (OutOfBounds i 0 n)"
  proof
    assume "extract_BFs_from_iriscode_XOR feat keys = Inl (OutOfBounds i 0 n)"
    then obtain x y where "encode_block (insert_location_XOR keys) feat x y = Inl (OutOfBounds i 0 n)"
      unfolding extract_BFs_from_iriscode_XOR_def extract_with_def
      using blocks_loop_error by blast
    from encode_block_no_write_error [OF realises_XOR [OF k] assms(1) this]
    show False by (simp add: bf_write_error_def)
  qed
qed

theorem xor_writes_in_bounds_witness:
  "0 \<le> loc (block_column chequer_iriscode 0 0 0) XOR 5
   \<and> loc (block_column chequer_iriscode 0 0 0) XOR 5 < 2 ^ N_BITS_BF
   \<and> extract_BFs_from_iriscode_XOR chequer_iriscode [0, 5, 1023] \<noteq> Inl (OutOfBounds 1024 0 1024)"
proof -
  have b: "is_binary chequer_iriscode"
    using valid_chequer by (simp add: valid_iriscode_def)
  have k: "list_all (\<lambda>k. 0 \<le> k \<and> k < 2 ^ N_BITS_BF) [0, 5, 1023 :: int]"
    by (simp add: consts_simps)
  from block_columns [OF valid_covers [OF valid_chequer], of 0 0] obtain S where
    s: "slice2 chequer_iriscode (0 * N_BITS_BF) ((0 + 1) * N_BITS_BF) (0 * N_WORDS_BF) ((0 + 1) * N_WORDS_BF) = Inr S"
    and n: "slice_ncols chequer_iriscode (0 * N_WORDS_BF) ((0 + 1) * N_WORDS_BF) = 32"
    and c: "get_column S 32 0 = Inr (block_column chequer_iriscode 0 0 0)"
    by auto
  have l: "location_of (block_column chequer_iriscode 0 0 0) = Inr (loc (block_column chequer_iriscode 0 0 0))"
    using block_column_binary [OF valid_window [OF valid_chequer], of 0 0 0]
    by (intro location_of_binary) auto
  from xor_writes_in_bounds [OF b k] s n c l show ?thesis
    by (metis list.set_intros(1) list.set_intros(2))
qed

section \<open>The permutation of the regions\<close>

lemma has_shape_nth: "has_shape n m a \<Longrightarrow> i < n \<Longrightarrow> length (a ! i) = m"
  by (simp add: has_shape_def list_all_length)

lemma has_shape_Cons: "has_shape (Suc n) m (row # a) \<longleftrightarrow> length row = m \<and> has_shape n m a"
  by (auto simp: has_shape_def)

lemma length_concat_rect: "has_shape n m a \<Longrightarrow> length (concat a) = n * m"
proof (induction a arbitrary: n)
  case Nil
  then show ?case by (simp add: has_shape_def)
next
  case (Cons row a)
  then obtain n' where n: "n = Suc n'" by (cases n) (auto simp: has_shape_def)
  with Cons.prems have "length row = m" "has_shape n' m a" by (simp_all add: has_shape_Cons)
  with Cons.IH [of n'] n show ?case by simp
qed

lemma concat_nth_rect:
  "has_shape n m a \<Longrightarrow> i < n \<Longrightarrow> j < m \<Longrightarrow> concat a ! (i * m + j) = a ! i ! j"
proof (induction a arbitrary: n i)
  case Nil
  then show ?case by (simp add: has_shape_def)
next
  case (Cons row a)
  then obtain n' where n: "n = Suc n'" by (cases n) (auto simp: has_shape_def)
  with Cons.prems have row: "length row = m" and a: "has_shape n' m a"
    by (simp_all add: has_shape_Cons)
  show ?case
  proof (cases i)
    case 0
    with row Cons.prems(3) show ?thesis by (simp add: nth_append)
  next
    case (Suc i')
    with Cons.prems(2) n have "i' < n'" by simp
    from Cons.IH [OF a this Cons.prems(3)] row Suc show ?thesis
      by (simp add: nth_append)
  qed
qed

lemma reshape_ok:
  assumes "length (concat a) = n * m"
  shows "\<exists>G. reshape a n m = Inr G \<and> has_shape n m G
           \<and> (\<forall>i<n. \<forall>j<m. G ! i ! j = concat a ! (i * m + j))"
proof -
  let ?G = "map (\<lambda>i. take m (drop (i * m) (concat a))) [0..<n]"
  have le: "i * m + m \<le> n * m" if "i < n" for i
  proof -
    from that have "Suc i \<le> n" by simp
    then have "Suc i * m \<le> n * m" by (rule mult_le_mono1)
    then show ?thesis by (simp add: add.commute)
  qed
  have "length (take m (drop (i * m) (concat a))) = m" if "i < n" for i
    using le [OF that] assms by simp
  then have "has_shape n m ?G"
    by (simp add: has_shape_def list_all_iff)
  moreover have "?G ! i ! j = concat a ! (i * m + j)" if "i < n" "j < m" for i j
    using that le [OF that(1)] assms by simp
  ultimately show ?thesis
    using assms by (simp add: reshape_def)
qed

lemma take_rows_ok:
  "list_all (\<lambda>k. - int (length a) \<le> k \<and> k < int (length a)) ks \<Longrightarrow>
   take_rows a ks = Inr (map (\<lambda>k. a ! wrap_index (length a) k) ks)"
  by (induction ks) (auto simp: norm_index_def wrap_index_def)

lemma wrap_index_less: "- int n \<le> k \<Longrightarrow> k < int n \<Longrightarrow> wrap_index n k < n"
  by (auto simp: wrap_index_def)

lemma group_arith:
  fixes g c :: nat
  assumes "g < 80"
  shows "g div 8 < 10" "g mod 8 * 32 + c mod 32 < 256"
    "g * 32 + c mod 32 = (g div 8) * 256 + (g mod 8 * 32 + c mod 32)"
proof -
  show "g div 8 < 10" using assms by simp
  have "g mod 8 < 8" by simp
  then have "g mod 8 * 32 \<le> 7 * 32" by simp
  moreover have "c mod 32 < 32" by simp
  ultimately show "g mod 8 * 32 + c mod 32 < 256" by linarith
  have "g = g div 8 * 8 + g mod 8" by simp
  then show "g * 32 + c mod 32 = (g div 8) * 256 + (g mod 8 * 32 + c mod 32)"
    by linarith
qed

lemma cell_arith:
  fixes r c :: nat
  assumes "r < 10" "c < 256"
  shows "r * 8 + c div 32 < 80" "r * 256 + c = (r * 8 + c div 32) * 32 + c mod 32"
proof -
  have "c div 32 < 8" using assms(2) by simp
  with assms(1) show "r * 8 + c div 32 < 80" by linarith
  have "c = c div 32 * 32 + c mod 32" by simp
  moreover have "(r * 8 + c div 32) * 32 = r * 256 + c div 32 * 32"
    by (simp add: add_mult_distrib)
  ultimately show "r * 256 + c = (r * 8 + c div 32) * 32 + c mod 32"
    by linarith
qed

lemma nested_list_eqI:
  assumes "length a = n" "length b = n"
    and "\<And>i. i < n \<Longrightarrow> length (a ! i) = m" "\<And>i. i < n \<Longrightarrow> length (b ! i) = m"
    and "\<And>i j. i < n \<Longrightarrow> j < m \<Longrightarrow> a ! i ! j = b ! i ! j"
  shows "a = b"
proof (rule nth_equalityI)
  show "length a = length b" using assms(1,2) by simp
next
  fix i assume "i < length a"
  with assms(1) have i: "i < n" by simp
  show "a ! i = b ! i"
  proof (rule nth_equalityI)
    show "length (a ! i) = length (b ! i)" using assms(3,4) i by simp
  next
    fix j assume "j < length (a ! i)"
    with assms(3) i have "j < m" by simp
    with i show "a ! i ! j = b ! i ! j" by (rule assms(5))
  qed
qed

lemma perm_region_shape: "has_shape 10 256 (perm_region reg ks)"
  by (simp add: perm_region_def has_shape_def list_all_iff)

lemma perm_region_nth:
  "r < 10 \<Longrightarrow> c < 256 \<Longrightarrow>
   perm_region reg ks ! r ! c
   = reg ! (wrap_index 80 (ks ! (r * 8 + c div 32)) div 8)
         ! (wrap_index 80 (ks ! (r * 8 + c div 32)) mod 8 * 32 + c mod 32)"
  by (simp add: perm_region_def)

lemma permute_region_closed:
  assumes "has_shape 10 256 reg" "index_row ks"
  shows "permute_region reg ks = Inr (perm_region reg ks)"
proof -
  from assms(2) have len: "length ks = 80" and rng: "list_all (\<lambda>k. - 80 \<le> k \<and> k < 80) ks"
    by (simp_all add: index_row_def)
  have "length (concat reg) = 80 * 32"
    using length_concat_rect [OF assms(1)] by simp
  from reshape_ok [OF this] obtain G where
    G: "reshape reg 80 32 = Inr G" and Gs: "has_shape 80 32 G"
    and Gn: "\<forall>i<80. \<forall>j<32. G ! i ! j = concat reg ! (i * 32 + j)"
    by blast
  from Gs have lG: "length G = 80" by (simp add: has_shape_def)
  let ?P = "map (\<lambda>k. G ! wrap_index 80 k) ks"
  have w: "wrap_index 80 (ks ! i) < 80" if "i < 80" for i
  proof -
    from rng len that have "- 80 \<le> ks ! i \<and> ks ! i < 80" by (simp add: list_all_length)
    then show ?thesis using wrap_index_less [of 80 "ks ! i"] by simp
  qed
  have P: "take_rows G ks = Inr ?P"
    using take_rows_ok [of G ks] rng lG by simp
  have Ps: "has_shape 80 32 ?P"
    unfolding has_shape_def list_all_length
    using len w has_shape_nth [OF Gs] by simp
  have "length (concat ?P) = 10 * 256"
    using length_concat_rect [OF Ps] by simp
  from reshape_ok [OF this] obtain R where
    R: "reshape ?P 10 256 = Inr R" and Rs: "has_shape 10 256 R"
    and Rn: "\<forall>i<10. \<forall>j<256. R ! i ! j = concat ?P ! (i * 256 + j)"
    by blast
  have "R = perm_region reg ks"
  proof (rule nested_list_eqI [where n = 10 and m = 256])
    show "length R = 10" using Rs by (simp add: has_shape_def)
    show "length (perm_region reg ks) = 10" by (simp add: perm_region_def)
    show "length (R ! i) = 256" if "i < 10" for i using has_shape_nth [OF Rs that] .
    show "length (perm_region reg ks ! i) = 256" if "i < 10" for i
      using has_shape_nth [OF perm_region_shape that] .
    show "R ! r ! c = perm_region reg ks ! r ! c" if r: "r < 10" and c: "c < 256" for r c
    proof -
      let ?i = "r * 8 + c div 32"
      let ?g = "wrap_index 80 (ks ! ?i)"
      have i: "?i < 80" using cell_arith(1) [OF r c] .
      have g: "?g < 80" using w [OF i] .
      have "R ! r ! c = concat ?P ! (r * 256 + c)" using Rn r c by simp
      also have "\<dots> = concat ?P ! (?i * 32 + c mod 32)"
        by (simp only: cell_arith(2) [OF r c])
      also have "\<dots> = ?P ! ?i ! (c mod 32)"
        using concat_nth_rect [OF Ps i, of "c mod 32"] by simp
      also have "\<dots> = G ! ?g ! (c mod 32)" using i len by simp
      also have "\<dots> = concat reg ! (?g * 32 + c mod 32)" using Gn g by simp
      also have "\<dots> = concat reg ! (?g div 8 * 256 + (?g mod 8 * 32 + c mod 32))"
        by (simp only: group_arith(3) [OF g, of c])
      also have "\<dots> = reg ! (?g div 8) ! (?g mod 8 * 32 + c mod 32)"
        using concat_nth_rect [OF assms(1) group_arith(1) [OF g] group_arith(2) [OF g, of c]] .
      finally show ?thesis using perm_region_nth [OF r c, of reg ks] by simp
    qed
  qed
  with G P R show ?thesis by (simp add: permute_region_def)
qed

lemma set_region_length [simp]: "length (set_region a r0 c0 blk) = length a"
  by (simp add: set_region_def)

lemma set_region_row:
  assumes "r < length a"
  shows "set_region a r0 c0 blk ! r
         = (if r0 \<le> r \<and> r < r0 + length blk
            then take c0 (a ! r) @ blk ! (r - r0) @ drop (c0 + length (blk ! (r - r0))) (a ! r)
            else a ! r)"
  using assms by (simp add: set_region_def)

lemma set_region_shape:
  assumes "has_shape n m a" "has_shape 10 256 blk" "c0 + 256 \<le> m"
  shows "has_shape n m (set_region a r0 c0 blk)"
proof -
  from assms(1) have n: "length a = n" by (simp add: has_shape_def)
  have "length (set_region a r0 c0 blk ! r) = m" if r: "r < n" for r
  proof (cases "r0 \<le> r \<and> r < r0 + length blk")
    case True
    moreover have "length blk = 10" using assms(2) by (simp add: has_shape_def)
    ultimately have "r - r0 < 10" by linarith
    from has_shape_nth [OF assms(2) this] has_shape_nth [OF assms(1) r] assms(3) True r n
    show ?thesis by (simp add: set_region_row)
  next
    case False
    then have "set_region a r0 c0 blk ! r = a ! r"
      using r n by (auto simp: set_region_row)
    with has_shape_nth [OF assms(1) r] show ?thesis by simp
  qed
  then show ?thesis
    using n by (simp add: has_shape_def list_all_length)
qed

lemma set_region_nth:
  assumes "has_shape n m a" "has_shape 10 256 blk" "c0 + 256 \<le> m" "r < n" "c < m"
  shows "set_region a r0 c0 blk ! r ! c
         = (if r0 \<le> r \<and> r < r0 + 10 \<and> c0 \<le> c \<and> c < c0 + 256
            then blk ! (r - r0) ! (c - c0) else a ! r ! c)"
proof -
  from assms(1) have n: "length a = n" by (simp add: has_shape_def)
  from assms(2) have b: "length blk = 10" by (simp add: has_shape_def)
  have ar: "length (a ! r) = m" using has_shape_nth [OF assms(1,4)] .
  show ?thesis
  proof (cases "r0 \<le> r \<and> r < r0 + 10")
    case True
    then have "r - r0 < 10" by linarith
    from has_shape_nth [OF assms(2) this] have br: "length (blk ! (r - r0)) = 256" .
    from True b n assms(4)
    have row: "set_region a r0 c0 blk ! r
               = take c0 (a ! r) @ blk ! (r - r0) @ drop (c0 + 256) (a ! r)"
      by (simp add: set_region_row br)
    show ?thesis
      using True ar br assms(3,5) by (auto simp: row nth_append)
  next
    case False
    with b n assms(4) show ?thesis by (auto simp: set_region_row)
  qed
qed

lemma quadrant_shape:
  assumes "has_shape n m a" "20 \<le> n" "512 \<le> m" "qr < 2" "qc < 2"
  shows "has_shape 10 256 (quadrant a qr qc)"
proof -
  from assms(1) have n: "length a = n" by (simp add: has_shape_def)
  have "length (take 256 (drop (qc * 256) row)) = 256" if "row \<in> set (take 10 (drop (qr * 10) a))" for row
  proof -
    from that have "row \<in> set a" by (meson in_set_dropD in_set_takeD)
    with assms(1) have "length row = m" by (simp add: has_shape_def list_all_iff)
    with assms(3,5) show ?thesis by simp
  qed
  then show ?thesis
    using n assms(2,4) by (simp add: quadrant_def has_shape_def list_all_iff)
qed

lemma quadrant_nth:
  assumes "has_shape n m a" "20 \<le> n" "512 \<le> m" "qr < 2" "qc < 2" "r < 10" "c < 256"
  shows "quadrant a qr qc ! r ! c = a ! (qr * 10 + r) ! (qc * 256 + c)"
proof -
  from assms(1) have n: "length a = n" by (simp add: has_shape_def)
  have i: "qr * 10 + r < n" using assms(2,4,6) by simp
  have l: "length (a ! (qr * 10 + r)) = m" using has_shape_nth [OF assms(1) i] .
  have t: "take 10 (drop (qr * 10) a) ! r = a ! (qr * 10 + r)"
    using assms(6) i n by simp
  have "r < length (take 10 (drop (qr * 10) a))" using assms(6) i n by simp
  then have "quadrant a qr qc ! r = take 256 (drop (qc * 256) (a ! (qr * 10 + r)))"
    by (simp only: quadrant_def nth_map t)
  then show ?thesis
    using l assms(3,5,7) by simp
qed

lemma quadrant_set_region:
  assumes "has_shape n m a" "20 \<le> n" "512 \<le> m" "has_shape 10 256 blk"
    and "qr' < 2" "qc' < 2" "qr < 2" "qc < 2"
  shows "quadrant (set_region a (qr' * 10) (qc' * 256) blk) qr qc
         = (if qr = qr' \<and> qc = qc' then blk else quadrant a qr qc)"
proof -
  have c0: "qc' * 256 + 256 \<le> m" using assms(3,6) by simp
  let ?s = "set_region a (qr' * 10) (qc' * 256) blk"
  have s: "has_shape n m ?s" using set_region_shape [OF assms(1,4) c0] .
  let ?rhs = "if qr = qr' \<and> qc = qc' then blk else quadrant a qr qc"
  have rs: "has_shape 10 256 ?rhs"
    using assms(4) quadrant_shape [OF assms(1,2,3,7,8)] by simp
  have ls: "has_shape 10 256 (quadrant ?s qr qc)"
    using quadrant_shape [OF s assms(2,3,7,8)] .
  show ?thesis
  proof (rule nested_list_eqI [where n = 10 and m = 256])
    show "length (quadrant ?s qr qc) = 10" using ls by (simp add: has_shape_def)
    show "length ?rhs = 10" using rs by (simp add: has_shape_def)
    show "length (quadrant ?s qr qc ! i) = 256" if "i < 10" for i
      using has_shape_nth [OF ls that] .
    show "length (?rhs ! i) = 256" if "i < 10" for i
      using has_shape_nth [OF rs that] .
    show "quadrant ?s qr qc ! r ! c = ?rhs ! r ! c" if r: "r < 10" and c: "c < 256" for r c
    proof -
      have i: "qr * 10 + r < n" "qc * 256 + c < m" using assms(2,3,7,8) r c by simp_all
      have "quadrant ?s qr qc ! r ! c = ?s ! (qr * 10 + r) ! (qc * 256 + c)"
        using quadrant_nth [OF s assms(2,3,7,8) r c] .
      also have "\<dots> = (if qr' * 10 \<le> qr * 10 + r \<and> qr * 10 + r < qr' * 10 + 10
                          \<and> qc' * 256 \<le> qc * 256 + c \<and> qc * 256 + c < qc' * 256 + 256
                       then blk ! (qr * 10 + r - qr' * 10) ! (qc * 256 + c - qc' * 256)
                       else a ! (qr * 10 + r) ! (qc * 256 + c))"
        using set_region_nth [OF assms(1,4) c0 i] .
      also have "\<dots> = ?rhs ! r ! c"
      proof (cases "qr = qr' \<and> qc = qc'")
        case True
        with r c show ?thesis by simp
      next
        case False
        have nc: "\<not> (qr' * 10 \<le> qr * 10 + r \<and> qr * 10 + r < qr' * 10 + 10
                 \<and> qc' * 256 \<le> qc * 256 + c \<and> qc * 256 + c < qc' * 256 + 256)"
          using False r c by linarith
        have "?rhs ! r ! c = a ! (qr * 10 + r) ! (qc * 256 + c)"
          using False quadrant_nth [OF assms(1,2,3,7,8) r c] by auto
        then show ?thesis by (simp only: if_not_P [OF nc])
      qed
      finally show ?thesis .
    qed
  qed
qed

lemma covers_shape: "covers a \<Longrightarrow> has_shape (length a) (ncols a) a"
  by (simp add: covers_def is_2d_def has_shape_def ncols_def)

lemma permute_region_steps:
  assumes "has_shape 10 256 reg" "index_row ks"
  shows "\<exists>G. reshape reg 80 32 = Inr G
           \<and> bind_err (take_rows G ks) (\<lambda>p. reshape p 10 256) = Inr (perm_region reg ks)"
  using permute_region_closed [OF assms]
  by (auto simp: permute_region_def bind_err_Inr_iff)

lemma slice2_quadrant:
  assumes "is_2d a"
  shows "slice2 a 0 10 0 256 = Inr (quadrant a 0 0)"
    "slice2 a 0 10 256 512 = Inr (quadrant a 0 1)"
    "slice2 a 10 20 0 256 = Inr (quadrant a 1 0)"
    "slice2 a 10 20 256 512 = Inr (quadrant a 1 1)"
  using assms by (simp_all add: slice2_def quadrant_def)

lemma add_unlinkability_closed:
  assumes "covers features" "usable_key K"
  shows "add_unlinkability features K = Inr (assemble features K)"
proof -
  from assms(1) have 2: "is_2d features" and n: "20 \<le> length features" and m: "512 \<le> ncols features"
    by (simp_all add: covers_def)
  note sh = covers_shape [OF assms(1)]
  have q: "has_shape 10 256 (quadrant features qr qc)" if "qr < 2" "qc < 2" for qr qc
    using quadrant_shape [OF sh n m that] .
  from assms(2) have k: "key_row K 0 = Inr (K ! 0)" "key_row K 2 = Inr (K ! 2)" "key_row K 3 = Inr (K ! 3)"
    and i: "index_row (K ! 0)" "index_row (K ! 2)" "index_row (K ! 3)"
    by (auto simp: usable_key_def key_row_def)
  from permute_region_steps [OF q i(1), of 0 0] obtain G1 where
    G1: "reshape (quadrant features 0 0) 80 32 = Inr G1"
      "bind_err (take_rows G1 (K ! 0)) (\<lambda>p. reshape p 10 256) = Inr (perm_region (quadrant features 0 0) (K ! 0))"
    by auto
  from permute_region_steps [OF q i(2), of 0 1] obtain G2 where
    G2: "reshape (quadrant features 0 1) 80 32 = Inr G2"
      "bind_err (take_rows G2 (K ! 2)) (\<lambda>p. reshape p 10 256) = Inr (perm_region (quadrant features 0 1) (K ! 2))"
    by auto
  from permute_region_steps [OF q i(2), of 1 0] obtain G3 where
    G3: "reshape (quadrant features 1 0) 80 32 = Inr G3"
      "bind_err (take_rows G3 (K ! 2)) (\<lambda>p. reshape p 10 256) = Inr (perm_region (quadrant features 1 0) (K ! 2))"
    by auto
  from permute_region_steps [OF q i(3), of 1 1] obtain G4 where
    G4: "reshape (quadrant features 1 1) 80 32 = Inr G4"
      "bind_err (take_rows G4 (K ! 3)) (\<lambda>p. reshape p 10 256) = Inr (perm_region (quadrant features 1 1) (K ! 3))"
    by auto
  show ?thesis
    unfolding add_unlinkability_def Let_def
    by (simp add: consts_simps slice2_quadrant [OF 2] G1 G2 G3 G4 k assemble_def nrows_def
        del: One_nat_def)
qed

lemma zeros_shape: "has_shape n m (zeros n m)"
  by (simp add: zeros_def has_shape_def list_all_iff)

lemma assemble_shape:
  assumes "covers features"
  shows "has_shape (length features) (ncols features) (assemble features K)"
proof -
  from assms have m: "512 \<le> ncols features" by (simp add: covers_def)
  show ?thesis
    unfolding assemble_def
    using m by (intro set_region_shape zeros_shape perm_region_shape) simp_all
qed

lemma assemble_quadrant:
  assumes "covers features" "qr < 2" "qc < 2"
  shows "quadrant (assemble features K) qr qc
         = perm_region (quadrant features qr qc) (K ! key_index qr qc)"
proof -
  from assms(1) have n: "20 \<le> length features" and m: "512 \<le> ncols features"
    by (simp_all add: covers_def)
  let ?n = "length features" and ?m = "ncols features"
  let ?R1 = "perm_region (quadrant features 0 0) (K ! 0)"
  let ?R2 = "perm_region (quadrant features 0 1) (K ! 2)"
  let ?R3 = "perm_region (quadrant features 1 0) (K ! 2)"
  let ?R4 = "perm_region (quadrant features 1 1) (K ! 3)"
  let ?a1 = "set_region (zeros ?n ?m) (0 * 10) (0 * 256) ?R1"
  let ?a2 = "set_region ?a1 (0 * 10) (1 * 256) ?R2"
  let ?a3 = "set_region ?a2 (1 * 10) (0 * 256) ?R3"
  let ?a4 = "set_region ?a3 (1 * 10) (1 * 256) ?R4"
  have s1: "has_shape ?n ?m ?a1"
    using m by (intro set_region_shape zeros_shape perm_region_shape) simp
  have s2: "has_shape ?n ?m ?a2"
    using m by (intro set_region_shape s1 perm_region_shape) simp
  have s3: "has_shape ?n ?m ?a3"
    using m by (intro set_region_shape s2 perm_region_shape) simp
  have a: "assemble features K = ?a4" by (simp add: assemble_def)
  have q4: "quadrant ?a4 qr qc = (if qr = 1 \<and> qc = 1 then ?R4 else quadrant ?a3 qr qc)"
    using quadrant_set_region [OF s3 n m perm_region_shape _ _ assms(2,3), of 1 1] by simp
  have q3: "quadrant ?a3 qr qc = (if qr = 1 \<and> qc = 0 then ?R3 else quadrant ?a2 qr qc)"
    using quadrant_set_region [OF s2 n m perm_region_shape _ _ assms(2,3), of 1 0] by simp
  have q2: "quadrant ?a2 qr qc = (if qr = 0 \<and> qc = 1 then ?R2 else quadrant ?a1 qr qc)"
    using quadrant_set_region [OF s1 n m perm_region_shape _ _ assms(2,3), of 0 1] by simp
  have q1: "quadrant ?a1 qr qc = (if qr = 0 \<and> qc = 0 then ?R1 else quadrant (zeros ?n ?m) qr qc)"
    using quadrant_set_region [OF zeros_shape n m perm_region_shape _ _ assms(2,3), of 0 0] by simp
  have "qr = 0 \<or> qr = 1" "qc = 0 \<or> qc = 1" using assms(2,3) by auto
  then show ?thesis
    unfolding a q4 q3 q2 q1 by (auto simp: key_index_def)
qed

lemma position_less: "v \<in> set p \<Longrightarrow> position p v < length p"
  unfolding position_def by (induction p) auto

lemma nth_position: "v \<in> set p \<Longrightarrow> p ! position p v = v"
  using nth_length_takeWhile [of "\<lambda>k. k \<noteq> v" p] position_less [of v p]
  by (simp add: position_def)

lemma position_nth: "distinct p \<Longrightarrow> i < length p \<Longrightarrow> position p (p ! i) = i"
  using nth_position [of "p ! i" p] position_less [of "p ! i" p]
  by (simp add: nth_eq_iff_index_eq)

lemma permutation_set:
  assumes "is_permutation n p"
  shows "set p = int ` {0..<n}"
proof (rule card_subset_eq)
  show "finite (int ` {0..<n})" by simp
  show "set p \<subseteq> int ` {0..<n}"
  proof
    fix k assume "k \<in> set p"
    with assms have "0 \<le> k" "k < int n" by (simp_all add: is_permutation_def list_all_iff)
    then have "k = int (nat k)" "nat k < n" by simp_all
    then show "k \<in> int ` {0..<n}" by (metis atLeastLessThan_iff image_eqI zero_le)
  qed
  have "card (set p) = n"
    using assms distinct_card [of p] by (simp add: is_permutation_def)
  moreover have "card (int ` {0..<n}) = n"
    by (simp add: card_image)
  ultimately show "card (set p) = card (int ` {0..<n})" by simp
qed

lemma permutation_position:
  assumes "is_permutation n p" "i < n"
  shows "position p (int i) < n" "p ! position p (int i) = int i"
proof -
  have "int i \<in> set p" using permutation_set [OF assms(1)] assms(2) by simp
  from position_less [OF this] nth_position [OF this] assms(1)
  show "position p (int i) < n" "p ! position p (int i) = int i"
    by (simp_all add: is_permutation_def)
qed

lemma inverse_perm_nth:
  assumes "is_permutation n p" "i < n"
  shows "inverse_perm p ! i = int (position p (int i))"
  using assms by (simp add: inverse_perm_def is_permutation_def)

lemma inverse_perm_permutation:
  assumes "is_permutation n p"
  shows "is_permutation n (inverse_perm p)"
proof -
  from assms have len: "length p = n" by (simp add: is_permutation_def)
  have "inj_on (\<lambda>i. int (position p (int i))) (set [0..<n])"
  proof (rule inj_onI)
    fix i j
    assume "i \<in> set [0..<n]" "j \<in> set [0..<n]"
      and e: "int (position p (int i)) = int (position p (int j))"
    then have "i < n" "j < n" by simp_all
    note pi = permutation_position(2) [OF assms this(1)]
      and pj = permutation_position(2) [OF assms this(2)]
    from e have "position p (int i) = position p (int j)" by (simp only: of_nat_eq_iff)
    then have "p ! position p (int i) = p ! position p (int j)" by (rule arg_cong)
    then have "int i = int j" by (simp only: pi pj)
    then show "i = j" by (simp only: of_nat_eq_iff)
  qed
  then have "distinct (inverse_perm p)"
    by (simp add: inverse_perm_def len distinct_map)
  moreover have "list_all (\<lambda>k. 0 \<le> k \<and> k < int n) (inverse_perm p)"
    using permutation_position(1) [OF assms] by (simp add: inverse_perm_def len list_all_iff)
  ultimately show ?thesis
    by (simp add: is_permutation_def inverse_perm_def len)
qed

lemma inverse_perm_inverse:
  assumes "is_permutation n p" "i < n"
  shows "p ! nat (inverse_perm p ! i) = int i" "inverse_perm p ! nat (p ! i) = int i"
proof -
  show "p ! nat (inverse_perm p ! i) = int i"
    using permutation_position(2) [OF assms] inverse_perm_nth [OF assms] by simp
  from assms have len: "length p = n" and d: "distinct p"
    and r: "0 \<le> p ! i" "p ! i < int n"
    by (simp_all add: is_permutation_def list_all_length)
  then have "nat (p ! i) < n" by simp
  from inverse_perm_nth [OF assms(1) this] r position_nth [OF d, of i] assms(2) len
  show "inverse_perm p ! nat (p ! i) = int i" by simp
qed

lemma permutation_index_row: "is_permutation 80 p \<Longrightarrow> index_row p"
  by (auto simp: is_permutation_def index_row_def list_all_iff)

lemma permutation_wrap:
  assumes "is_permutation 80 p" "i < 80"
  shows "wrap_index 80 (p ! i) = nat (p ! i)" "nat (p ! i) < 80"
proof -
  from assms have "0 \<le> p ! i \<and> p ! i < 80"
    by (simp add: is_permutation_def list_all_length)
  then show "wrap_index 80 (p ! i) = nat (p ! i)" "nat (p ! i) < 80"
    by (simp add: wrap_index_def, linarith)
qed

lemma roundtrip_arith:
  fixes g r c :: nat
  assumes "g < 80" "r < 10" "c < 256"
  shows "g div 8 * 8 + (g mod 8 * 32 + c mod 32) div 32 = g"
    "(g mod 8 * 32 + c mod 32) mod 32 = c mod 32"
    "(r * 8 + c div 32) div 8 = r"
    "(r * 8 + c div 32) mod 8 * 32 + c mod 32 = c"
proof -
  have 1: "(g mod 8 * 32 + c mod 32) div 32 = g mod 8" by simp
  show "g div 8 * 8 + (g mod 8 * 32 + c mod 32) div 32 = g" unfolding 1 by simp
  show "(g mod 8 * 32 + c mod 32) mod 32 = c mod 32" by simp
  have c: "c div 32 < 8" using assms(3) by simp
  then show "(r * 8 + c div 32) div 8 = r" by simp
  from c have "(r * 8 + c div 32) mod 8 = c div 32" by simp
  then show "(r * 8 + c div 32) mod 8 * 32 + c mod 32 = c" by simp
qed

lemma perm_region_roundtrip:
  assumes "has_shape 10 256 reg" "is_permutation 80 p"
  shows "perm_region (perm_region reg p) (inverse_perm p) = reg"
proof (rule nested_list_eqI [where n = 10 and m = 256])
  note q = inverse_perm_permutation [OF assms(2)]
  show "length (perm_region (perm_region reg p) (inverse_perm p)) = 10"
    by (simp add: perm_region_def)
  show "length reg = 10" using assms(1) by (simp add: has_shape_def)
  show "length (perm_region (perm_region reg p) (inverse_perm p) ! i) = 256" if "i < 10" for i
    using has_shape_nth [OF perm_region_shape that] .
  show "length (reg ! i) = 256" if "i < 10" for i
    using has_shape_nth [OF assms(1) that] .
  show "perm_region (perm_region reg p) (inverse_perm p) ! r ! c = reg ! r ! c"
    if r: "r < 10" and c: "c < 256" for r c
  proof -
    let ?i = "r * 8 + c div 32"
    let ?g = "nat (inverse_perm p ! ?i)"
    have i: "?i < 80" using cell_arith(1) [OF r c] .
    have g: "?g < 80" and wg: "wrap_index 80 (inverse_perm p ! ?i) = ?g"
      using permutation_wrap [OF q i] by simp_all
    let ?r1 = "?g div 8" and ?c1 = "?g mod 8 * 32 + c mod 32"
    have r1: "?r1 < 10" and c1: "?c1 < 256"
      using group_arith(1,2) [OF g] by simp_all
    have bk: "?r1 * 8 + ?c1 div 32 = ?g" "?c1 mod 32 = c mod 32"
      using roundtrip_arith(1,2) [OF g r c] by simp_all
    have pg: "p ! ?g = int ?i" using inverse_perm_inverse(1) [OF assms(2) i] .
    have wp: "wrap_index 80 (p ! ?g) = ?i"
      using permutation_wrap(1) [OF assms(2) g] pg by simp
    have "perm_region (perm_region reg p) (inverse_perm p) ! r ! c = perm_region reg p ! ?r1 ! ?c1"
      using perm_region_nth [OF r c, of "perm_region reg p" "inverse_perm p"] wg by simp
    also have "\<dots> = reg ! (wrap_index 80 (p ! (?r1 * 8 + ?c1 div 32)) div 8)
         ! (wrap_index 80 (p ! (?r1 * 8 + ?c1 div 32)) mod 8 * 32 + ?c1 mod 32)"
      using perm_region_nth [OF r1 c1, of reg p] .
    also have "\<dots> = reg ! (?i div 8) ! (?i mod 8 * 32 + c mod 32)"
      by (simp only: bk wp)
    also have "\<dots> = reg ! r ! c"
      by (simp only: roundtrip_arith(3,4) [OF g r c])
    finally show ?thesis .
  qed
qed

lemma valid_key_rows:
  assumes "valid_key K" "j < 4"
  shows "is_permutation 80 (K ! j)"
  using assms by (simp add: valid_key_def list_all_length consts_simps)

lemma valid_key_usable: "valid_key K \<Longrightarrow> usable_key K"
proof -
  assume v: "valid_key K"
  then have l: "length K = 4" by (simp add: valid_key_def)
  have "length row = 80" if "row \<in> set K" for row
    using v that by (simp add: valid_key_def list_all_iff is_permutation_def consts_simps)
  moreover have "K \<noteq> []" using l by auto
  moreover have "hd K \<in> set K" using \<open>K \<noteq> []\<close> by simp
  ultimately have "is_2d K" by (simp add: is_2d_def list_all_iff)
  with l valid_key_rows [OF v] show ?thesis
    by (simp add: usable_key_def permutation_index_row)
qed

lemma inverse_key_valid: "valid_key K \<Longrightarrow> valid_key (inverse_key K)"
  by (simp add: valid_key_def inverse_key_def list_all_iff inverse_perm_permutation)

lemma inverse_key_nth: "valid_key K \<Longrightarrow> j < 4 \<Longrightarrow> inverse_key K ! j = inverse_perm (K ! j)"
  by (simp add: valid_key_def inverse_key_def)

lemma has_shape_covers:
  assumes "has_shape 20 512 a"
  shows "covers a" "length a = 20" "ncols a = 512"
proof -
  from assms show l: "length a = 20" by (simp add: has_shape_def)
  then have ne: "a \<noteq> []" by auto
  then have "hd a \<in> set a" by simp
  with assms show c: "ncols a = 512" by (simp add: has_shape_def list_all_iff ncols_def)
  with assms l ne show "covers a"
    by (simp add: covers_def is_2d_def has_shape_def ncols_def list_all_iff)
qed

lemma quadrants_eq:
  assumes "has_shape 20 512 A" "has_shape 20 512 B"
    and "\<And>qr qc. qr < 2 \<Longrightarrow> qc < 2 \<Longrightarrow> quadrant A qr qc = quadrant B qr qc"
  shows "A = B"
proof (rule nested_list_eqI [where n = 20 and m = 512])
  show "length A = 20" "length B = 20" using assms(1,2) by (simp_all add: has_shape_def)
  show "length (A ! i) = 512" if "i < 20" for i using has_shape_nth [OF assms(1) that] .
  show "length (B ! i) = 512" if "i < 20" for i using has_shape_nth [OF assms(2) that] .
  show "A ! r ! c = B ! r ! c" if r: "r < 20" and c: "c < 512" for r c
  proof -
    have q: "r div 10 < 2" "c div 256 < 2" "r mod 10 < 10" "c mod 256 < 256"
      using r c by simp_all
    have e: "r div 10 * 10 + r mod 10 = r" "c div 256 * 256 + c mod 256 = c" by simp_all
    have "A ! r ! c = quadrant A (r div 10) (c div 256) ! (r mod 10) ! (c mod 256)"
      using quadrant_nth [OF assms(1) _ _ q] by (simp only: e)
    also have "\<dots> = quadrant B (r div 10) (c div 256) ! (r mod 10) ! (c mod 256)"
      using assms(3) [OF q(1,2)] by simp
    also have "\<dots> = B ! r ! c"
      using quadrant_nth [OF assms(2) _ _ q] by (simp only: e)
    finally show ?thesis .
  qed
qed

lemma key_index_less: "key_index qr qc < 4"
  by (simp add: key_index_def)

lemma key_row_cong:
  assumes "length K1 = length K2" "is_2d K1 = is_2d K2" "K1 ! j = K2 ! j"
  shows "key_row K1 j = key_row K2 j"
  using assms by (simp add: key_row_def)

lemma zeros_nth: "r < n \<Longrightarrow> c < m \<Longrightarrow> zeros n m ! r ! c = 0"
  by (simp add: zeros_def)

lemma index_row_wrap:
  assumes "index_row ks" "i < 80"
  shows "wrap_index 80 (ks ! i) < 80"
proof -
  from assms have "- 80 \<le> ks ! i \<and> ks ! i < 80"
    by (simp add: index_row_def list_all_length)
  then show ?thesis using wrap_index_less [of 80 "ks ! i"] by simp
qed

lemma assemble_zeros:
  assumes "usable_key K"
  shows "assemble (zeros 20 512) K = zeros 20 512"
proof -
  note Z = zeros_shape [of 20 512]
  note cZ = has_shape_covers [OF Z]
  have A: "has_shape 20 512 (assemble (zeros 20 512) K)"
    using assemble_shape [OF cZ(1), of K] cZ(2,3) by simp
  show ?thesis
  proof (rule quadrants_eq [OF A Z])
    fix qr qc :: nat
    assume q: "qr < 2" "qc < 2"
    let ?reg = "quadrant (zeros 20 512) qr qc"
    let ?ks = "K ! key_index qr qc"
    have reg: "has_shape 10 256 ?reg" using quadrant_shape [OF Z _ _ q] by simp
    have z: "?reg ! a ! b = 0" if "a < 10" "b < 256" for a b
    proof -
      have "qr * 10 + a < 20" "qc * 256 + b < 512" using q that by simp_all
      then show ?thesis
        using quadrant_nth [OF Z _ _ q that] by (simp add: zeros_nth)
    qed
    have ks: "index_row ?ks"
      using assms by (auto simp: usable_key_def key_index_def)
    have "perm_region ?reg ?ks = ?reg"
    proof (rule nested_list_eqI [where n = 10 and m = 256])
      show "length (perm_region ?reg ?ks) = 10" by (simp add: perm_region_def)
      show "length ?reg = 10" using reg by (simp add: has_shape_def)
      show "length (perm_region ?reg ?ks ! i) = 256" if "i < 10" for i
        using has_shape_nth [OF perm_region_shape that] .
      show "length (?reg ! i) = 256" if "i < 10" for i
        using has_shape_nth [OF reg that] .
      show "perm_region ?reg ?ks ! r ! c = ?reg ! r ! c" if r: "r < 10" and c: "c < 256" for r c
      proof -
        let ?g = "wrap_index 80 (?ks ! (r * 8 + c div 32))"
        have g: "?g < 80" using index_row_wrap [OF ks cell_arith(1) [OF r c]] .
        have "perm_region ?reg ?ks ! r ! c = ?reg ! (?g div 8) ! (?g mod 8 * 32 + c mod 32)"
          using perm_region_nth [OF r c] .
        also have "\<dots> = 0" using z [OF group_arith(1,2) [OF g]] .
        finally show ?thesis using z [OF r c] by simp
      qed
    qed
    then show "quadrant (assemble (zeros 20 512) K) qr qc = ?reg"
      using assemble_quadrant [OF cZ(1) q, of K] by simp
  qed
qed

lemma valid_zeros: "valid_iriscode (zeros 20 512)"
  by (simp add: valid_iriscode_def has_shape_def is_binary_def zeros_def consts_simps
      list_all_iff is_bit_def)

lemma loc_zeros: "loc (replicate n 0) = 0"
  by (induction n) simp_all

lemma block_column_zeros:
  assumes "x < 16" "y < 2" "w < 32"
  shows "block_column (zeros 20 512) x y w = replicate 10 0"
proof (rule nth_equalityI)
  show "length (block_column (zeros 20 512) x y w) = length (replicate 10 (0::int))"
    by (simp add: block_column_def consts_simps)
next
  fix i assume "i < length (block_column (zeros 20 512) x y w)"
  then have i: "i < 10" by (simp add: block_column_def consts_simps)
  then have "y * 10 + i < 20" "x * 32 + w < 512" using assms by simp_all
  then have "zeros 20 512 ! (y * 10 + i) ! (x * 32 + w) = 0" by (rule zeros_nth)
  then show "block_column (zeros 20 512) x y w ! i = replicate 10 0 ! i"
    using i by (simp add: block_column_def consts_simps)
qed

lemma mark_zero_row: "mark (replicate 1024 0) (replicate 32 0) = 1 # replicate 1023 0"
proof (rule nth_equalityI)
  show "length (mark (replicate 1024 0) (replicate 32 0)) = length (1 # replicate 1023 (0::int))"
    by simp
next
  fix i assume "i < length (mark (replicate 1024 0) (replicate 32 0))"
  then have i: "i < 1024" by simp
  then have "mark (replicate 1024 0) (replicate 32 0) ! i = (if i = 0 then 1 else 0)"
    by (simp add: mark_nth)
  also have "\<dots> = (1 # replicate 1023 0) ! i"
    using i by (cases i) simp_all
  finally show "mark (replicate 1024 0) (replicate 32 0) ! i = (1 # replicate 1023 0) ! i" .
qed

lemma concat_singletons: "concat (map (\<lambda>w. [c]) xs) = replicate (length xs) c"
  by (induction xs) simp_all

lemma extract_zeros:
  "extract_BFs_from_iriscode (zeros 20 512) = Inr (replicate 32 (1 # replicate 1023 0))"
proof -
  let ?f = "\<lambda>(x, y). mark (replicate 1024 0) (block_marks (\<lambda>l. [nat l]) (zeros 20 512) x y)"
  have m: "block_marks (\<lambda>l. [nat l]) (zeros 20 512) x y = replicate 32 0" if "x < 16" "y < 2" for x y
  proof -
    have "map (\<lambda>w. [nat (loc (block_column (zeros 20 512) x y w))]) [0..<32]
          = map (\<lambda>w. [0]) [0..<32]"
      using block_column_zeros [OF that] by (intro map_cong) (simp_all add: loc_zeros)
    then have "block_marks (\<lambda>l. [nat l]) (zeros 20 512) x y = concat (map (\<lambda>w. [0]) [0..<32])"
      by (simp add: block_marks_def)
    also have "\<dots> = replicate 32 0"
      using concat_singletons [of 0 "[0..<32]"] by simp
    finally show ?thesis .
  qed
  have "map ?f (List.product [0..<16] [0..<2]) = map (\<lambda>p. 1 # replicate 1023 0) (List.product [0..<16] [0..<2])"
    by (intro map_cong) (auto simp: m mark_zero_row)
  also have "\<dots> = replicate 32 (1 # replicate 1023 0)"
    by (simp add: map_replicate_const)
  finally show ?thesis
    using extract_with_realises [OF realises_baseline valid_covers [OF valid_zeros]
        valid_window [OF valid_zeros]]
    by (simp add: extract_BFs_from_iriscode_def)
qed

lemma permutation_identity: "is_permutation 80 (map int [0..<80])"
  by (simp add: is_permutation_def list_all_iff distinct_map)

lemma permutation_reverse: "is_permutation 80 (map int (rev [0..<80]))"
  by (simp add: is_permutation_def list_all_iff distinct_map)

lemma valid_reversing_key: "valid_key reversing_key"
  using permutation_reverse by (simp add: valid_key_def reversing_key_def consts_simps list_all_iff)

lemma valid_identity_key: "valid_key identity_key"
  using permutation_identity by (simp add: valid_key_def identity_key_def consts_simps list_all_iff)

lemma valid_swapped_key: "valid_key (identity_key[2 := map int (rev [0..<80])])"
proof -
  have "list_all (is_permutation 80) identity_key"
    using permutation_identity by (simp add: identity_key_def list_all_iff)
  then have "list_all (is_permutation 80) (identity_key[2 := map int (rev [0..<80])])"
    using permutation_reverse by (rule list_all_update)
  then show ?thesis by (simp add: valid_key_def identity_key_def consts_simps)
qed

lemma marked_shape: "has_shape 20 512 marked_iriscode"
  by (simp add: marked_iriscode_def has_shape_def list_all_iff)

lemma marked_nth: "r < 20 \<Longrightarrow> c < 512 \<Longrightarrow> marked_iriscode ! r ! c = (if r = 0 then 1 else 0)"
  by (simp add: marked_iriscode_def)

lemma chequer_shape: "has_shape (2 * N_BITS_BF) (N_BF_X * N_WORDS_BF) chequer_iriscode"
  using valid_chequer by (simp add: valid_iriscode_def)

lemma is_2d_reversing: "is_2d reversing_key" "is_2d (reversing_key[1 := replicate 80 7])"
  by (simp_all add: is_2d_def reversing_key_def numeral_eq_Suc)

lemma region_depends_on_code_key_row:
  assumes "covers M1" "covers M2" "usable_key K1" "usable_key K2" "qr < 2" "qc < 2"
    and "quadrant M1 qr qc = quadrant M2 qr qc" "K1 ! key_index qr qc = K2 ! key_index qr qc"
  shows "\<exists>P1 P2. add_unlinkability M1 K1 = Inr P1 \<and> add_unlinkability M2 K2 = Inr P2
           \<and> quadrant P1 qr qc = quadrant P2 qr qc"
  using add_unlinkability_closed [OF assms(1,3)] add_unlinkability_closed [OF assms(2,4)]
    assemble_quadrant [OF assms(1,5,6), of K1] assemble_quadrant [OF assms(2,5,6), of K2] assms(7,8)
  by simp


section \<open>The claims on the permutation\<close>

text \<open>
  Claim C3. On a matrix of shape \<open>2B \<times> (Xb \<cdot> W) = 20 \<times> 512\<close> and key material whose four
  rows are bijections over \<open>[0, 80)\<close>, \<^verbatim>\<open>add_unlinkability\<close> returns a matrix, and
  applying it again with the inverse permutations returns the original matrix. The
  inverse key material is valid, and its rows are the two-sided inverses of the key's.
\<close>

theorem unlinkability_invertible:
  assumes "has_shape (2 * N_BITS_BF) (N_BF_X * N_WORDS_BF) M" "valid_key K"
  shows "\<exists>P. add_unlinkability M K = Inr P \<and> add_unlinkability P (inverse_key K) = Inr M
           \<and> valid_key (inverse_key K)
           \<and> (\<forall>j<4. \<forall>i<80. K ! j ! nat (inverse_key K ! j ! i) = int i
                                \<and> inverse_key K ! j ! nat (K ! j ! i) = int i)"
proof -
  from assms(1) have M: "has_shape 20 512 M" by (simp add: consts_simps)
  note cM = has_shape_covers [OF M]
  let ?K' = "inverse_key K"
  let ?P = "assemble M K"
  have 1: "add_unlinkability M K = Inr ?P"
    using add_unlinkability_closed [OF cM(1) valid_key_usable [OF assms(2)]] .
  have P: "has_shape 20 512 ?P"
    using assemble_shape [OF cM(1), of K] cM(2,3) by simp
  note cP = has_shape_covers [OF P]
  note v' = inverse_key_valid [OF assms(2)]
  have 2: "add_unlinkability ?P ?K' = Inr (assemble ?P ?K')"
    using add_unlinkability_closed [OF cP(1) valid_key_usable [OF v']] .
  have P': "has_shape 20 512 (assemble ?P ?K')"
    using assemble_shape [OF cP(1), of ?K'] cP(2,3) by simp
  have "assemble ?P ?K' = M"
  proof (rule quadrants_eq [OF P' M])
    fix qr qc :: nat
    assume q: "qr < 2" "qc < 2"
    let ?j = "key_index qr qc"
    have reg: "has_shape 10 256 (quadrant M qr qc)"
      using quadrant_shape [OF M _ _ q] by simp
    have "quadrant (assemble ?P ?K') qr qc = perm_region (quadrant ?P qr qc) (?K' ! ?j)"
      using assemble_quadrant [OF cP(1) q] .
    also have "\<dots> = perm_region (perm_region (quadrant M qr qc) (K ! ?j)) (inverse_perm (K ! ?j))"
      using assemble_quadrant [OF cM(1) q, of K] inverse_key_nth [OF assms(2) key_index_less, of qr qc]
      by simp
    also have "\<dots> = quadrant M qr qc"
      using perm_region_roundtrip [OF reg valid_key_rows [OF assms(2) key_index_less]] .
    finally show "quadrant (assemble ?P ?K') qr qc = quadrant M qr qc" .
  qed
  with 2 have 3: "add_unlinkability ?P ?K' = Inr M" by simp
  have 4: "\<forall>j<4. \<forall>i<80. K ! j ! nat (?K' ! j ! i) = int i \<and> ?K' ! j ! nat (K ! j ! i) = int i"
  proof (intro allI impI)
    fix j i :: nat
    assume j: "j < 4" and i: "i < 80"
    from inverse_perm_inverse [OF valid_key_rows [OF assms(2) j] i] inverse_key_nth [OF assms(2) j]
    show "K ! j ! nat (?K' ! j ! i) = int i \<and> ?K' ! j ! nat (K ! j ! i) = int i"
      by simp
  qed
  from 1 3 v' 4 show ?thesis by blast
qed

theorem unlinkability_invertible_witness:
  "\<exists>P. add_unlinkability chequer_iriscode reversing_key = Inr P
     \<and> add_unlinkability P (inverse_key reversing_key) = Inr chequer_iriscode
     \<and> valid_key (inverse_key reversing_key)
     \<and> reversing_key ! 2 ! nat (inverse_key reversing_key ! 2 ! 5) = 5"
proof -
  from unlinkability_invertible [OF chequer_shape valid_reversing_key] obtain P where
    P: "add_unlinkability chequer_iriscode reversing_key = Inr P"
      "add_unlinkability P (inverse_key reversing_key) = Inr chequer_iriscode"
      "valid_key (inverse_key reversing_key)"
    and i: "\<forall>j<4. \<forall>i<80. reversing_key ! j ! nat (inverse_key reversing_key ! j ! i) = int i
              \<and> inverse_key reversing_key ! j ! nat (reversing_key ! j ! i) = int i"
    by blast
  from i have "reversing_key ! 2 ! nat (inverse_key reversing_key ! 2 ! 5) = int 5"
    by (metis numeral_less_iff semiring_norm(76) semiring_norm(77) semiring_norm(78) semiring_norm(79) semiring_norm(81))
  with P show ?thesis by auto
qed

text \<open>
  Claim C4. Each quadrant is meant to use a key row of its own. The code reads key row 2
  for the top-right quadrant as it does for the bottom-left one: on the same matrix, two
  key materials that agree on row 1 (and on rows 0 and 3) and differ in row 2 give
  different top-right regions.
\<close>

theorem second_quadrant_key_row:
  "\<exists>P1 P2. add_unlinkability marked_iriscode identity_key = Inr P1
     \<and> add_unlinkability marked_iriscode (identity_key[2 := map int (rev [0..<80])]) = Inr P2
     \<and> identity_key ! 1 = identity_key[2 := map int (rev [0..<80])] ! 1
     \<and> quadrant P1 0 1 \<noteq> quadrant P2 0 1"
proof -
  let ?M = marked_iriscode
  let ?Ka = identity_key and ?Kb = "identity_key[2 := map int (rev [0..<80])]"
  note cM = has_shape_covers [OF marked_shape]
  have 1: "add_unlinkability ?M ?Ka = Inr (assemble ?M ?Ka)"
    using add_unlinkability_closed [OF cM(1) valid_key_usable [OF valid_identity_key]] .
  have 2: "add_unlinkability ?M ?Kb = Inr (assemble ?M ?Kb)"
    using add_unlinkability_closed [OF cM(1) valid_key_usable [OF valid_swapped_key]] .
  have q: "quadrant (assemble ?M K) 0 1 ! 0 ! 0
           = quadrant ?M 0 1 ! (wrap_index 80 (K ! 2 ! 0) div 8) ! (wrap_index 80 (K ! 2 ! 0) mod 8 * 32)"
    for K
    using assemble_quadrant [OF cM(1), of 0 1 K] perm_region_nth [of 0 0 "quadrant ?M 0 1" "K ! 2"]
    by (simp add: key_index_def)
  have ka: "?Ka ! 2 ! 0 = 0" by (simp add: identity_key_def)
  have kb: "?Kb ! 2 ! 0 = 79" by (simp add: identity_key_def rev_nth)
  have "quadrant (assemble ?M ?Ka) 0 1 ! 0 ! 0 = quadrant ?M 0 1 ! 0 ! 0"
    unfolding q ka by (simp add: wrap_index_def)
  also have "\<dots> = 1"
    using quadrant_nth [OF marked_shape, of 0 1 0 0] by (simp add: marked_nth)
  finally have a: "quadrant (assemble ?M ?Ka) 0 1 ! 0 ! 0 = 1" .
  have "quadrant (assemble ?M ?Kb) 0 1 ! 0 ! 0 = quadrant ?M 0 1 ! 9 ! 224"
    unfolding q kb by (simp add: wrap_index_def)
  also have "\<dots> = 0"
    using quadrant_nth [OF marked_shape, of 0 1 9 224] by (simp add: marked_nth)
  finally have b: "quadrant (assemble ?M ?Kb) 0 1 ! 0 ! 0 = 0" .
  have "quadrant (assemble ?M ?Ka) 0 1 \<noteq> quadrant (assemble ?M ?Kb) 0 1"
  proof
    assume "quadrant (assemble ?M ?Ka) 0 1 = quadrant (assemble ?M ?Kb) 0 1"
    then have "quadrant (assemble ?M ?Ka) 0 1 ! 0 ! 0 = quadrant (assemble ?M ?Kb) 0 1 ! 0 ! 0"
      by (rule arg_cong)
    with a b show False by simp
  qed
  moreover have "?Ka ! 1 = ?Kb ! 1" by simp
  ultimately show ?thesis using 1 2 by blast
qed

text \<open>
  Claim C6. The all-zero \<open>20 \<times> 512\<close> matrix, permuted with any valid key material and
  encoded by the baseline encoder, gives the \<open>32 \<times> 1024\<close> template whose every row has
  its one 1-bit at index 0.
\<close>

theorem all_zero_template:
  assumes "valid_key K"
  shows "bind_err (add_unlinkability (zeros (2 * N_BITS_BF) (N_BF_X * N_WORDS_BF)) K)
           extract_BFs_from_iriscode
         = Inr (replicate N_BLOCKS (1 # replicate (BF_SIZE - 1) 0))"
proof -
  note u = valid_key_usable [OF assms]
  have "add_unlinkability (zeros 20 512) K = Inr (zeros 20 512)"
    using add_unlinkability_closed [OF has_shape_covers(1) [OF zeros_shape] u] assemble_zeros [OF u]
    by simp
  then show ?thesis
    by (simp add: consts_simps extract_zeros)
qed

theorem all_zero_template_witness:
  "bind_err (add_unlinkability (zeros (2 * N_BITS_BF) (N_BF_X * N_WORDS_BF)) reversing_key)
     extract_BFs_from_iriscode
   = Inr (replicate N_BLOCKS (1 # replicate (BF_SIZE - 1) 0))"
  using all_zero_template [OF valid_reversing_key] .

text \<open>
  Claim C9. The result of \<^verbatim>\<open>add_unlinkability\<close>, an exception included, is the same for
  two key arrays of the same size that agree on rows 0, 2 and 3, whatever their rows 1.
  On a \<open>20 \<times> 512\<close> matrix and valid key material the four regions of the result are the
  regions of the input transformed with the key rows 0, 2, 2 and 3.
\<close>

theorem key_row_1_unused:
  assumes "length K1 = length K2" "is_2d K1 = is_2d K2"
    and "K1 ! 0 = K2 ! 0" "K1 ! 2 = K2 ! 2" "K1 ! 3 = K2 ! 3"
  shows "add_unlinkability M K1 = add_unlinkability M K2
       \<and> (has_shape (2 * N_BITS_BF) (N_BF_X * N_WORDS_BF) M \<and> valid_key K1 \<longrightarrow>
            (\<exists>P. add_unlinkability M K1 = Inr P
               \<and> Inr (quadrant P 0 0) = permute_region (quadrant M 0 0) (K1 ! 0)
               \<and> Inr (quadrant P 0 1) = permute_region (quadrant M 0 1) (K1 ! 2)
               \<and> Inr (quadrant P 1 0) = permute_region (quadrant M 1 0) (K1 ! 2)
               \<and> Inr (quadrant P 1 1) = permute_region (quadrant M 1 1) (K1 ! 3)))"
proof (intro conjI impI)
  show "add_unlinkability M K1 = add_unlinkability M K2"
    unfolding add_unlinkability_def
    by (simp only: key_row_cong [OF assms(1,2,3)] key_row_cong [OF assms(1,2,4)]
        key_row_cong [OF assms(1,2,5)])
next
  assume "has_shape (2 * N_BITS_BF) (N_BF_X * N_WORDS_BF) M \<and> valid_key K1"
  then have M: "has_shape 20 512 M" and v: "valid_key K1" by (simp_all add: consts_simps)
  note cM = has_shape_covers [OF M]
  have 1: "add_unlinkability M K1 = Inr (assemble M K1)"
    using add_unlinkability_closed [OF cM(1) valid_key_usable [OF v]] .
  have q: "Inr (quadrant (assemble M K1) qr qc)
           = permute_region (quadrant M qr qc) (K1 ! key_index qr qc)"
    if "qr < 2" "qc < 2" for qr qc
    using assemble_quadrant [OF cM(1) that, of K1]
      permute_region_closed [OF quadrant_shape [OF M _ _ that]
        permutation_index_row [OF valid_key_rows [OF v key_index_less]], of qr qc]
    by simp
  from 1 q [of 0 0] q [of 0 1] q [of 1 0] q [of 1 1]
  show "\<exists>P. add_unlinkability M K1 = Inr P
               \<and> Inr (quadrant P 0 0) = permute_region (quadrant M 0 0) (K1 ! 0)
               \<and> Inr (quadrant P 0 1) = permute_region (quadrant M 0 1) (K1 ! 2)
               \<and> Inr (quadrant P 1 0) = permute_region (quadrant M 1 0) (K1 ! 2)
               \<and> Inr (quadrant P 1 1) = permute_region (quadrant M 1 1) (K1 ! 3)"
    by (simp add: key_index_def)
qed

theorem key_row_1_unused_witness:
  "add_unlinkability chequer_iriscode reversing_key
     = add_unlinkability chequer_iriscode (reversing_key[1 := replicate 80 7])
   \<and> (\<exists>P. add_unlinkability chequer_iriscode reversing_key = Inr P
         \<and> Inr (quadrant P 0 0) = permute_region (quadrant chequer_iriscode 0 0) (reversing_key ! 0)
         \<and> Inr (quadrant P 0 1) = permute_region (quadrant chequer_iriscode 0 1) (reversing_key ! 2)
         \<and> Inr (quadrant P 1 0) = permute_region (quadrant chequer_iriscode 1 0) (reversing_key ! 2)
         \<and> Inr (quadrant P 1 1) = permute_region (quadrant chequer_iriscode 1 1) (reversing_key ! 3))"
proof -
  let ?K2 = "reversing_key[1 := replicate 80 7]"
  have l: "length reversing_key = length ?K2" by simp
  have d: "is_2d reversing_key = is_2d ?K2" using is_2d_reversing by simp
  have r: "reversing_key ! 0 = ?K2 ! 0" "reversing_key ! 2 = ?K2 ! 2" "reversing_key ! 3 = ?K2 ! 3"
    by simp_all
  from key_row_1_unused [OF l d r, of chequer_iriscode] chequer_shape valid_reversing_key
  show ?thesis by blast
qed

section \<open>One sample, from its text to its template\<close>

lemma window_binary_all: "window_binary a = window_all is_bit a"
  by (simp add: window_binary_def window_all_def is_bit_def)

lemma perm_region_entry:
  assumes "index_row ks" "r < 10" "c < 256"
  shows "\<exists>a<10. \<exists>b<256. perm_region reg ks ! r ! c = reg ! a ! b"
proof -
  let ?g = "wrap_index 80 (ks ! (r * 8 + c div 32))"
  have g: "?g < 80" using index_row_wrap [OF assms(1) cell_arith(1) [OF assms(2,3)]] .
  from perm_region_nth [OF assms(2,3), of reg ks] group_arith(1) [OF g] group_arith(2) [OF g, of c]
  show ?thesis by blast
qed

lemma window_cell:
  assumes "covers A" "r < 20" "c < 512"
  shows "A ! r ! c = quadrant A (r div 10) (c div 256) ! (r mod 10) ! (c mod 256)"
proof -
  note sh = covers_shape [OF assms(1)]
  from assms(1) have n: "20 \<le> length A" and m: "512 \<le> ncols A" by (simp_all add: covers_def)
  have q: "r div 10 < 2" "c div 256 < 2" "r mod 10 < 10" "c mod 256 < 256"
    using assms(2,3) by simp_all
  have e: "r div 10 * 10 + r mod 10 = r" "c div 256 * 256 + c mod 256 = c" by simp_all
  from quadrant_nth [OF sh n m q] show ?thesis by (simp only: e)
qed

lemma quadrant_cell:
  assumes "covers A" "qr < 2" "qc < 2" "a < 10" "b < 256"
  shows "\<exists>r<20. \<exists>c<512. quadrant A qr qc ! a ! b = A ! r ! c"
proof -
  note sh = covers_shape [OF assms(1)]
  from assms(1) have n: "20 \<le> length A" and m: "512 \<le> ncols A" by (simp_all add: covers_def)
  have "qr * 10 + a < 20" "qc * 256 + b < 512" using assms(2-5) by simp_all
  with quadrant_nth [OF sh n m assms(2-5)] show ?thesis by blast
qed

lemma assemble_covers:
  assumes "covers M"
  shows "covers (assemble M K)"
proof -
  from assms have n: "20 \<le> length M" and m: "512 \<le> ncols M" by (simp_all add: covers_def)
  note sh = assemble_shape [OF assms, of K]
  then have l: "length (assemble M K) = length M" by (simp add: has_shape_def)
  then have ne: "assemble M K \<noteq> []" using n by auto
  then have "hd (assemble M K) \<in> set (assemble M K)" by simp
  with sh have c: "ncols (assemble M K) = ncols M"
    by (simp add: has_shape_def list_all_iff ncols_def)
  with sh l ne n m show ?thesis
    by (simp add: covers_def is_2d_def has_shape_def ncols_def list_all_iff)
qed

lemma assemble_window:
  assumes "covers M" "usable_key K" "window_all Q M"
  shows "window_all Q (assemble M K)"
  unfolding window_all_def
proof (intro allI impI)
  fix r c :: nat
  assume r: "r < 20" and c: "c < 512"
  have q: "r div 10 < 2" "c div 256 < 2" "r mod 10 < 10" "c mod 256 < 256"
    using r c by simp_all
  let ?ks = "K ! key_index (r div 10) (c div 256)"
  have ks: "index_row ?ks" using assms(2) by (auto simp: usable_key_def key_index_def)
  have "assemble M K ! r ! c
        = perm_region (quadrant M (r div 10) (c div 256)) ?ks ! (r mod 10) ! (c mod 256)"
    using window_cell [OF assemble_covers [OF assms(1)] r c] assemble_quadrant [OF assms(1) q(1,2), of K]
    by simp
  with perm_region_entry [OF ks q(3,4), of "quadrant M (r div 10) (c div 256)"]
  obtain a b where ab: "a < 10" "b < 256"
    and e: "assemble M K ! r ! c = quadrant M (r div 10) (c div 256) ! a ! b"
    by auto
  from quadrant_cell [OF assms(1) q(1,2) ab] obtain r' c' where
    "r' < 20" "c' < 512" "quadrant M (r div 10) (c div 256) ! a ! b = M ! r' ! c'"
    by blast
  with assms(3) e show "Q (assemble M K ! r ! c)" by (simp add: window_all_def)
qed

lemma assemble_window_rev:
  assumes "covers M" "valid_key K" "window_all Q (assemble M K)"
  shows "window_all Q M"
  unfolding window_all_def
proof (intro allI impI)
  fix r c :: nat
  assume r: "r < 20" and c: "c < 512"
  have q: "r div 10 < 2" "c div 256 < 2" "r mod 10 < 10" "c mod 256 < 256"
    using r c by simp_all
  let ?j = "key_index (r div 10) (c div 256)"
  let ?reg = "quadrant M (r div 10) (c div 256)"
  note p = valid_key_rows [OF assms(2) key_index_less, of "r div 10" "c div 256"]
  from assms(1) have n: "20 \<le> length M" and m: "512 \<le> ncols M" by (simp_all add: covers_def)
  have reg: "has_shape 10 256 ?reg"
    using quadrant_shape [OF covers_shape [OF assms(1)] n m q(1,2)] .
  have "M ! r ! c = ?reg ! (r mod 10) ! (c mod 256)"
    using window_cell [OF assms(1) r c] .
  also have "\<dots> = perm_region (perm_region ?reg (K ! ?j)) (inverse_perm (K ! ?j)) ! (r mod 10) ! (c mod 256)"
    using perm_region_roundtrip [OF reg p] by simp
  also have "\<dots> = perm_region (quadrant (assemble M K) (r div 10) (c div 256)) (inverse_perm (K ! ?j))
                     ! (r mod 10) ! (c mod 256)"
    using assemble_quadrant [OF assms(1) q(1,2), of K] by simp
  finally have e: "M ! r ! c = perm_region (quadrant (assemble M K) (r div 10) (c div 256))
                     (inverse_perm (K ! ?j)) ! (r mod 10) ! (c mod 256)" .
  have "index_row (inverse_perm (K ! ?j))"
    using permutation_index_row [OF inverse_perm_permutation [OF p]] .
  from perm_region_entry [OF this q(3,4), of "quadrant (assemble M K) (r div 10) (c div 256)"] e
  obtain a b where ab: "a < 10" "b < 256"
    and e': "M ! r ! c = quadrant (assemble M K) (r div 10) (c div 256) ! a ! b"
    by auto
  from quadrant_cell [OF assemble_covers [OF assms(1)] q(1,2) ab] obtain r' c' where
    "r' < 20" "c' < 512" "quadrant (assemble M K) (r div 10) (c div 256) ! a ! b = assemble M K ! r' ! c'"
    by blast
  with assms(3) e' show "Q (M ! r ! c)" by (simp add: window_all_def)
qed

lemma region_size_arith:
  fixes a b :: nat
  assumes "a \<le> 10" "b \<le> 256" "a * b = 2560"
  shows "a = 10 \<and> b = 256"
proof -
  have "a = 10"
  proof (rule ccontr)
    assume "a \<noteq> 10"
    with assms(1) have "a \<le> 9" by simp
    then have "a * b \<le> 9 * 256" using assms(2) by (rule mult_le_mono)
    with assms(3) show False by simp
  qed
  with assms(2,3) show ?thesis by simp
qed

lemma add_unlinkability_covers:
  assumes "add_unlinkability M K = Inr P"
  shows "covers M"
proof -
  from assms obtain s G where s: "slice2 M 10 20 256 512 = Inr s" and G: "reshape s 80 32 = Inr G"
    unfolding add_unlinkability_def Let_def
    by (auto simp: bind_err_Inr_iff consts_simps)
  from s have 2: "is_2d M" and s': "s = map (\<lambda>row. take 256 (drop 256 row)) (take 10 (drop 10 M))"
    by (simp_all add: slice2_def split: if_splits)
  have "length (take 256 (drop 256 row)) = min 256 (ncols M - 256)"
    if "row \<in> set (take 10 (drop 10 M))" for row
  proof -
    from that have "row \<in> set M" by (meson in_set_dropD in_set_takeD)
    with 2 have "length row = ncols M" unfolding is_2d_def ncols_def list_all_iff by blast
    then show ?thesis by (simp add: min.commute)
  qed
  then have "has_shape (min 10 (length M - 10)) (min 256 (ncols M - 256)) s"
    by (simp add: s' has_shape_def list_all_iff min.commute)
  from length_concat_rect [OF this] G
  have "min 10 (length M - 10) * min 256 (ncols M - 256) = 2560"
    by (simp add: reshape_def split: if_splits)
  from region_size_arith [OF _ _ this]
  have "min 10 (length M - 10) = 10" "min 256 (ncols M - 256) = 256" by simp_all
  then have "20 \<le> length M" "512 \<le> ncols M" by linarith+
  with 2 show ?thesis by (simp add: covers_def)
qed

lemma blocks_loop_Inr_all:
  "blocks_loop enc coords index T = Inr R \<Longrightarrow> (x, y) \<in> set coords \<Longrightarrow> \<exists>bf. enc x y = Inr bf"
proof (induction coords arbitrary: index T)
  case Nil
  then show ?case by simp
next
  case (Cons p coords)
  obtain x' y' where p: "p = (x', y')" by (cases p)
  from Cons.prems(1) p obtain bf where e: "enc x' y' = Inr bf"
    and r: "blocks_loop enc coords (index + 1) (T[index := bf]) = Inr R"
    by (auto simp: bind_err_Inr_iff)
  show ?case
  proof (cases "(x, y) = p")
    case True
    with p e show ?thesis by auto
  next
    case False
    with Cons.prems(2) have "(x, y) \<in> set coords" by simp
    from Cons.IH [OF r this] show ?thesis .
  qed
qed

lemma words_loop_Inr_all:
  "words_loop ins S nc ws bf = Inr bf' \<Longrightarrow> w \<in> set ws \<Longrightarrow>
   \<exists>hist l. get_column S nc w = Inr hist \<and> location_of hist = Inr l"
proof (induction ws arbitrary: bf)
  case Nil
  then show ?case by simp
next
  case (Cons w' ws)
  from Cons.prems(1) obtain hist l b where h: "get_column S nc w' = Inr hist"
    and l: "location_of hist = Inr l" and r: "words_loop ins S nc ws b = Inr bf'"
    by (auto simp: bind_err_Inr_iff)
  show ?case
  proof (cases "w = w'")
    case True
    with h l show ?thesis by blast
  next
    case False
    with Cons.prems(2) have "w \<in> set ws" by simp
    from Cons.IH [OF r this] show ?thesis .
  qed
qed

lemma location_of_Inr_digits:
  assumes "location_of hist = Inr l" "e \<in> set hist"
  shows "list_all is_bin_digit (py_str e)"
proof -
  from assms(1) have "list_all is_bin_digit (concat (map py_str hist))"
    by (simp add: location_of_def int_base2_def Let_def split: if_splits)
  with assms(2) show ?thesis by (auto simp: list_all_iff)
qed

lemma extract_with_window:
  assumes "extract_with ins P = Inr T" "covers P"
  shows "window_all bin_string P"
  unfolding window_all_def
proof (intro allI impI)
  fix r c :: nat
  assume r: "r < 20" and c: "c < 512"
  let ?x = "c div 32" and ?y = "r div 10" and ?w = "c mod 32"
  have x: "?x < 16" and y: "?y < 2" and w: "?w < 32" using r c by simp_all
  have "(?x, ?y) \<in> set (List.product [0..<N_BF_X] [0..<N_BF_Y])"
    using x y by (simp add: consts_simps)
  from blocks_loop_Inr_all [OF assms(1) [unfolded extract_with_def] this]
  obtain bf where bf: "encode_block ins P ?x ?y = Inr bf" by blast
  from block_columns [OF assms(2) x y] obtain S where
    s: "slice2 P (?y * N_BITS_BF) ((?y + 1) * N_BITS_BF) (?x * N_WORDS_BF) ((?x + 1) * N_WORDS_BF) = Inr S"
    and nc: "slice_ncols P (?x * N_WORDS_BF) ((?x + 1) * N_WORDS_BF) = 32"
    and cols: "\<forall>w<32. get_column S 32 w = Inr (block_column P ?x ?y w)"
    by blast
  from bf s nc have "words_loop ins S 32 [0..<N_WORDS_BF] (replicate BF_SIZE 0) = Inr bf"
    by (simp add: encode_block_def Let_def)
  from words_loop_Inr_all [OF this, of ?w] w cols obtain l where
    l: "location_of (block_column P ?x ?y ?w) = Inr l"
    by (auto simp: consts_simps)
  have e: "r mod 10 < 10" "?y * 10 + r mod 10 = r" "?x * 32 + ?w = c" by simp_all
  have "block_column P ?x ?y ?w ! (r mod 10) = P ! r ! c"
    using e(1) by (simp add: block_column_def consts_simps del: mult_div_mod_eq div_mult_mod_eq)
  moreover have "r mod 10 < length (block_column P ?x ?y ?w)"
    by (simp add: block_column_def consts_simps)
  ultimately have "P ! r ! c \<in> set (block_column P ?x ?y ?w)"
    by (metis nth_mem)
  from location_of_Inr_digits [OF l this] show "bin_string (P ! r ! c)"
    by (simp add: bin_string_def)
qed

lemma map_err_Inr:
  "map_err f xs = Inr ys \<Longrightarrow> list_all2 (\<lambda>x y. f x = Inr y) xs ys"
proof (induction xs arbitrary: ys)
  case Nil
  then show ?case by simp
next
  case (Cons x xs)
  from Cons.prems obtain y ys' where "f x = Inr y" "map_err f xs = Inr ys'" "ys = y # ys'"
    by (auto simp: bind_err_Inr_iff)
  with Cons.IH [of ys'] show ?case by simp
qed

lemma map_err_replicate: "f x = Inr y \<Longrightarrow> map_err f (replicate n x) = Inr (replicate n y)"
  by (induction n) simp_all

lemma int_of_char_Inr:
  assumes "int_of_char ch = Inr v"
  shows "ch \<in> set ''0123456789''" "py_str v = [ch]"
proof -
  from assms show d: "ch \<in> set ''0123456789''"
    by (simp add: int_of_char_def split: if_splits)
  from assms d have v: "v = int (of_char ch) - 48"
    by (simp add: int_of_char_def)
  from d show "py_str v = [ch]"
    unfolding v by (auto simp: py_str_def digit_char_def)
qed

lemma load_iriscode_Inr:
  assumes "load_iriscode lines = Inr M"
  shows "length M = length lines"
    and "i < length lines \<Longrightarrow> length (M ! i) = length (rstrip (lines ! i))"
    and "i < length lines \<Longrightarrow> j < length (rstrip (lines ! i)) \<Longrightarrow>
         int_of_char (rstrip (lines ! i) ! j) = Inr (M ! i ! j)"
proof -
  from map_err_Inr [OF assms [unfolded load_iriscode_def]]
  have a: "list_all2 (\<lambda>line row. map_err int_of_char (rstrip line) = Inr row) lines M" .
  then show l: "length M = length lines" by (simp add: list_all2_lengthD)
  have r: "list_all2 (\<lambda>ch v. int_of_char ch = Inr v) (rstrip (lines ! i)) (M ! i)"
    if "i < length lines" for i
    using list_all2_nthD [OF a that] by (rule map_err_Inr)
  show "length (M ! i) = length (rstrip (lines ! i))" if "i < length lines"
    using r [OF that] by (simp add: list_all2_lengthD)
  show "int_of_char (rstrip (lines ! i) ! j) = Inr (M ! i ! j)"
    if "i < length lines" "j < length (rstrip (lines ! i))"
    using list_all2_nthD [OF r [OF that(1)] that(2)] .
qed

lemma returned_not_rejected:
  assumes "valid_key key" "process_sample nXORKeys xorKeys key lines = Inr T"
  shows "\<not> rejected_sample lines"
proof -
  from assms(2) obtain M P ins where M: "load_iriscode lines = Inr M"
    and P: "add_unlinkability M key = Inr P" and T: "extract_with ins P = Inr T"
    unfolding process_sample_def extract_BFs_from_iriscode_def extract_BFs_from_iriscode_XOR_def
    by (auto simp: bind_err_Inr_iff split: if_splits)
  note L = load_iriscode_Inr [OF M]
  note cM = add_unlinkability_covers [OF P]
  from cM have 2: "is_2d M" and n: "20 \<le> length M" and m: "512 \<le> ncols M"
    by (simp_all add: covers_def)
  have "P = assemble M key"
    using add_unlinkability_closed [OF cM valid_key_usable [OF assms(1)]] P by simp
  with T have "window_all bin_string (assemble M key)"
    using extract_with_window [OF _ assemble_covers [OF cM]] by simp
  from assemble_window_rev [OF cM assms(1) this] have W: "window_all bin_string M" .
  let ?rows = "map rstrip lines"
  have len: "length (?rows ! i) = ncols M" if "i < length lines" for i
    using L(2) [OF that] is_2d_row_length [OF 2, of i] L(1) that by simp
  have ne: "lines \<noteq> []" using n L(1) by auto
  have hd: "length (hd ?rows) = ncols M"
    using len [of 0] ne by (simp add: hd_conv_nth)
  have 1: "\<not> (\<exists>l\<in>set ?rows. length l < 512)"
  proof
    assume "\<exists>l\<in>set ?rows. length l < 512"
    then obtain i where "i < length lines" "length (?rows ! i) < 512"
      by (auto simp: in_set_conv_nth)
    with len [of i] m show False by simp
  qed
  have 3: "\<not> (\<exists>l\<in>set ?rows. length l \<noteq> length (hd ?rows))"
  proof
    assume "\<exists>l\<in>set ?rows. length l \<noteq> length (hd ?rows)"
    then obtain i where "i < length lines" "length (?rows ! i) \<noteq> length (hd ?rows)"
      by (auto simp: in_set_conv_nth)
    with len [of i] hd show False by simp
  qed
  have 4: "\<not> (\<exists>l\<in>set ?rows. \<exists>ch\<in>set l. ch \<notin> set ''0123456789'')"
  proof
    assume "\<exists>l\<in>set ?rows. \<exists>ch\<in>set l. ch \<notin> set ''0123456789''"
    then obtain i j where i: "i < length lines" and j: "j < length (rstrip (lines ! i))"
      and b: "rstrip (lines ! i) ! j \<notin> set ''0123456789''"
      by (auto simp: in_set_conv_nth)
    from int_of_char_Inr(1) [OF L(3) [OF i j]] b show False by blast
  qed
  have 5: "\<not> (\<exists>l\<in>set (take 20 ?rows). \<exists>ch\<in>set (take 512 l). ch \<noteq> CHR ''0'' \<and> ch \<noteq> CHR ''1'')"
  proof
    assume "\<exists>l\<in>set (take 20 ?rows). \<exists>ch\<in>set (take 512 l). ch \<noteq> CHR ''0'' \<and> ch \<noteq> CHR ''1''"
    then obtain l ch where l: "l \<in> set (take 20 ?rows)" and ch: "ch \<in> set (take 512 l)"
      and b: "ch \<noteq> CHR ''0'' \<and> ch \<noteq> CHR ''1''"
      by blast
    from l obtain i where i: "i < 20" "i < length lines" and li: "l = rstrip (lines ! i)"
      by (auto simp: in_set_conv_nth)
    from ch obtain j where j: "j < 512" "j < length l" and cj: "ch = l ! j"
      by (auto simp: in_set_conv_nth)
    from L(3) [OF i(2), of j] j(2) li cj have v: "int_of_char ch = Inr (M ! i ! j)" by simp
    from W i(1) j(1) have "bin_string (M ! i ! j)" by (simp add: window_all_def)
    with int_of_char_Inr(2) [OF v] have "is_bin_digit ch" by (simp add: bin_string_def)
    with b show False by (simp add: is_bin_digit_def)
  qed
  have c: "N_BF_X * N_WORDS_BF = 512" "2 * N_BITS_BF = 20" by (simp_all add: consts_simps)
  from 1 3 4 5 show ?thesis
    unfolding rejected_sample_def Let_def c by blast
qed

lemma rstrip_snoc: "\<not> is_space c \<Longrightarrow> rstrip (xs @ [c]) = xs @ [c]"
  by (simp add: rstrip_def)

lemma rstrip_newline: "rstrip (replicate 600 CHR ''0'' @ [CHR 0x0A]) = replicate 600 CHR ''0''"
  by (simp add: rstrip_def is_space_def)

lemma load_long_lines: "load_iriscode long_lines = Inr (zeros 20 600)"
proof -
  have "map_err int_of_char (replicate 600 CHR ''0'') = Inr (replicate 600 0)"
    by (rule map_err_replicate) (simp add: int_of_char_def)
  then have "map_err int_of_char (rstrip (replicate 600 CHR ''0'' @ [CHR 0x0A])) = Inr (replicate 600 0)"
    by (simp only: rstrip_newline)
  then show ?thesis
    unfolding load_iriscode_def long_lines_def zeros_def by (rule map_err_replicate)
qed

lemma covers_zeros_wide: "covers (zeros 20 600)"
  by (simp add: covers_def is_2d_def ncols_def zeros_def list_all_iff)

lemma window_zeros_wide: "window_all (\<lambda>e. e = 0) (zeros 20 600)"
  by (simp add: window_all_def zeros_nth)

lemma extract_zero_window:
  assumes "covers feat" "window_all (\<lambda>e. e = 0) feat"
  shows "extract_BFs_from_iriscode feat = Inr (replicate 32 (1 # replicate 1023 0))"
proof -
  have wb: "window_binary feat"
    using assms(2) by (simp add: window_binary_def window_all_def)
  have col: "block_column feat x y w = replicate 10 0" if "x < 16" "y < 2" "w < 32" for x y w
  proof (rule nth_equalityI)
    show "length (block_column feat x y w) = length (replicate 10 (0::int))"
      by (simp add: block_column_def consts_simps)
  next
    fix i assume "i < length (block_column feat x y w)"
    then have i: "i < 10" by (simp add: block_column_def consts_simps)
    then have "y * 10 + i < 20" "x * 32 + w < 512" using that by simp_all
    with assms(2) have "feat ! (y * 10 + i) ! (x * 32 + w) = 0" by (simp add: window_all_def)
    then show "block_column feat x y w ! i = replicate 10 0 ! i"
      using i by (simp add: block_column_def consts_simps)
  qed
  let ?f = "\<lambda>(x, y). mark (replicate 1024 0) (block_marks (\<lambda>l. [nat l]) feat x y)"
  have m: "block_marks (\<lambda>l. [nat l]) feat x y = replicate 32 0" if "x < 16" "y < 2" for x y
  proof -
    have "map (\<lambda>w. [nat (loc (block_column feat x y w))]) [0..<32] = map (\<lambda>w. [0]) [0..<32]"
      using col [OF that] by (intro map_cong) (simp_all add: loc_zeros)
    then have "block_marks (\<lambda>l. [nat l]) feat x y = concat (map (\<lambda>w. [0]) [0..<32])"
      by (simp add: block_marks_def)
    also have "\<dots> = replicate 32 0"
      using concat_singletons [of 0 "[0..<32]"] by simp
    finally show ?thesis .
  qed
  have "map ?f (List.product [0..<16] [0..<2]) = map (\<lambda>p. 1 # replicate 1023 0) (List.product [0..<16] [0..<2])"
    by (intro map_cong) (auto simp: m mark_zero_row)
  also have "\<dots> = replicate 32 (1 # replicate 1023 0)"
    by (simp add: map_replicate_const)
  finally show ?thesis
    using extract_with_realises [OF realises_baseline assms(1) wb]
    by (simp add: extract_BFs_from_iriscode_def)
qed

lemma rejected_bad_digit: "rejected_sample bad_digit_lines"
proof -
  let ?l = "replicate 511 CHR ''0'' @ ''2''"
  have r: "rstrip ?l = ?l" by (rule rstrip_snoc) (simp add: is_space_def)
  have "?l \<in> set (take 20 (map rstrip bad_digit_lines))"
    by (simp add: bad_digit_lines_def r)
  moreover have "CHR ''2'' \<in> set (take 512 ?l)" by simp
  ultimately have "\<exists>l\<in>set (take 20 (map rstrip bad_digit_lines)). \<exists>ch\<in>set (take 512 l).
      ch \<noteq> CHR ''0'' \<and> ch \<noteq> CHR ''1''"
    by (intro bexI [of _ ?l] bexI [of _ "CHR ''2''"]) simp_all
  moreover have "N_BF_X * N_WORDS_BF = 512" "2 * N_BITS_BF = 20" by (simp_all add: consts_simps)
  ultimately show ?thesis
    unfolding rejected_sample_def Let_def by presburger
qed

section \<open>The claim on malformed input\<close>

text \<open>
  Claim C8 says that a sample with a line not of length \<open>Cols\<close> is rejected. The script
  checks no length: twenty lines of 600 zeros are loaded as a \<open>20 \<times> 600\<close> matrix, and the
  template of its first 512 columns is returned.
\<close>

theorem long_lines_accepted:
  "length (rstrip (long_lines ! 0)) \<noteq> N_BF_X * N_WORDS_BF
   \<and> process_sample 0 [] reversing_key long_lines
       = Inr (replicate N_BLOCKS (1 # replicate (BF_SIZE - 1) 0))"
proof -
  note u = valid_key_usable [OF valid_reversing_key]
  have 1: "add_unlinkability (zeros 20 600) reversing_key = Inr (assemble (zeros 20 600) reversing_key)"
    using add_unlinkability_closed [OF covers_zeros_wide u] .
  have "extract_BFs_from_iriscode (assemble (zeros 20 600) reversing_key)
        = Inr (replicate 32 (1 # replicate 1023 0))"
    using extract_zero_window [OF assemble_covers [OF covers_zeros_wide]
        assemble_window [OF covers_zeros_wide u window_zeros_wide]] .
  with 1 have "process_sample 0 [] reversing_key long_lines = Inr (replicate 32 (1 # replicate 1023 0))"
    by (simp add: process_sample_def load_long_lines)
  moreover have "length (rstrip (long_lines ! 0)) = 600"
    by (simp add: long_lines_def rstrip_newline)
  ultimately show ?thesis by (simp add: consts_simps)
qed

text \<open>
  Claim C8, amended. With valid key material, in either mode: a sample with a line
  shorter than \<open>Cols\<close>, with lines of different lengths, with a character that is no
  decimal digit, or with a character other than 0 and 1 among the first \<open>Cols\<close> characters
  of the first \<open>Rows\<close> lines ends the run with an exception, and no template is returned for
  it.
\<close>

theorem malformed_sample_raises:
  assumes "valid_key key" "rejected_sample lines"
  shows "\<exists>e. process_sample nXORKeys xorKeys key lines = Inl e"
proof (cases "process_sample nXORKeys xorKeys key lines")
  case (Inl e)
  then show ?thesis by blast
next
  case (Inr T)
  from returned_not_rejected [OF assms(1) Inr] assms(2) show ?thesis by simp
qed

theorem malformed_sample_raises_witness:
  "\<exists>e. process_sample 0 [] reversing_key bad_digit_lines = Inl e"
  using malformed_sample_raises [OF valid_reversing_key rejected_bad_digit] .

end
